theory Spec2Isabelle
  imports Complex_Main "HOL-Library.Word" "HOL-Library.Stream" "HOL-Library.Sublist"
    "HOL-Library.Multiset"
begin

section \<open>Weighted influence maximisation (CELF over Monte Carlo IC spread)\<close>

text \<open>
  A shallow embedding of \<^verbatim>\<open>src/weighted_max_influence.cc\<close> (the implementation with
  the eligibility flag, the epoch token and the \<^verbatim>\<open>mc_rounds\<close> parameter). The
  repository also holds an older variant of the same program at its root,
  \<^verbatim>\<open>weighted_max_influence.cc\<close>; where it differs in a way that matters below, the
  difference is noted.

  Conventions of the embedding.
  \<^item> A \<^verbatim>\<open>double\<close> is the \<^typ>\<open>real\<close> number it denotes. The arithmetic operations
    on it round their exact result to the nearest binary64 value, ties to even
    (\<open>dadd\<close>, \<open>dsub\<close>, \<open>ddiv\<close> below); comparisons are exact. The exponent range is
    taken to be unbounded, so overflow to infinity and gradual underflow are not
    represented, and neither is NaN: \<open>ddiv 0 0\<close> is 0 where the machine gives NaN.
  \<^item> Internal node ids, vector indices and container sizes are \<^typ>\<open>nat\<close>; the
    command-line integers \<^verbatim>\<open>k\<close> and \<^verbatim>\<open>mc_rounds\<close> are \<^typ>\<open>int\<close>.
  \<^item> \<^verbatim>\<open>unsigned int\<close> (the epoch token) is a 32-bit word.
  \<^item> \<^verbatim>\<open>std::mt19937\<close> together with \<^verbatim>\<open>uniform_real_distribution\<close> is a stream of
    draws: \<open>shd\<close> is the next draw, \<open>stl\<close> the generator afterwards.
  \<^item> An index outside a vector is undefined behaviour in C++; the model returns
    \<open>None\<close> there, so every such access is a visible branch.
\<close>

subsection \<open>Binary64 arithmetic\<close>

text \<open>Rounding to the nearest integer, ties to the even one.\<close>

definition round_even :: "real \<Rightarrow> int" where
  "round_even y =
     (let f = \<lfloor>y\<rfloor> in
      if y - of_int f < 1/2 then f
      else if 1/2 < y - of_int f then f + 1
      else if even f then f else f + 1)"

definition pow2 :: "int \<Rightarrow> real" where
  "pow2 k = (if 0 \<le> k then 2 ^ nat k else 1 / 2 ^ nat (- k))"

text \<open>
  The binary64 value nearest to \<open>x\<close>: with \<open>2^e \<le> |x| < 2^(e+1)\<close>, the multiple of
  \<open>2^(e-52)\<close> nearest to \<open>x\<close>, which has a significand of 53 bits.
\<close>

definition rnd :: "real \<Rightarrow> real" where
  "rnd x =
     (if x = 0 then 0
      else (let e = \<lfloor>log 2 \<bar>x\<bar>\<rfloor>
            in of_int (round_even (x * pow2 (52 - e))) * pow2 (e - 52)))"

text \<open>\<^verbatim>\<open>+\<close>, \<^verbatim>\<open>-\<close> and \<^verbatim>\<open>/\<close> on \<^verbatim>\<open>double\<close>.\<close>

definition dadd :: "real \<Rightarrow> real \<Rightarrow> real" where
  "dadd a b = rnd (a + b)"

definition dsub :: "real \<Rightarrow> real \<Rightarrow> real" where
  "dsub a b = rnd (a - b)"

definition ddiv :: "real \<Rightarrow> real \<Rightarrow> real" where
  "ddiv a b = rnd (a / b)"

text \<open>The unit roundoff of binary64, and the binary64 value nearest to 1/10.\<close>

definition unit_roundoff :: real where
  "unit_roundoff = 1 / 2 ^ 53"

definition tenth :: real where
  "tenth = 3602879701896397 / 36028797018963968"

subsection \<open>Graph model\<close>

record Edge =
  to :: nat
  probability :: real

text \<open>\<^verbatim>\<open>has_value\<close> is a \<^verbatim>\<open>vector<char>\<close> holding only 0 and 1; it is read only
  through \<^verbatim>\<open>!g.has_value[i]\<close>, so it is a list of booleans here.\<close>

record Graph =
  id_map :: "string \<rightharpoonup> nat"
  reverse_id_map :: "string list"
  adj :: "Edge list list"
  node_values :: "real list"
  has_value :: "bool list"

definition empty_graph :: Graph where
  "empty_graph = \<lparr>id_map = Map.empty, reverse_id_map = [], adj = [],
                   node_values = [], has_value = []\<rparr>"

text \<open>\<^verbatim>\<open>std::vector::resize(n, v)\<close>.\<close>

definition resize :: "'a list \<Rightarrow> nat \<Rightarrow> 'a \<Rightarrow> 'a list" where
  "resize xs n v = take n xs @ replicate (n - length xs) v"

definition get_internal_id :: "Graph \<Rightarrow> string \<Rightarrow> nat \<times> Graph" where
  "get_internal_id g gexf_id =
     (case id_map g gexf_id of
        None \<Rightarrow>
          (let new_id = length (reverse_id_map g) in
           (new_id,
            g\<lparr>id_map := (id_map g)(gexf_id \<mapsto> new_id),
              reverse_id_map := reverse_id_map g @ [gexf_id],
              adj := resize (adj g) (new_id + 1) [],
              node_values := resize (node_values g) (new_id + 1) 0,
              has_value := resize (has_value g) (new_id + 1) False\<rparr>))
      | Some i \<Rightarrow> (i, g))"

definition add_edge :: "Graph \<Rightarrow> string \<Rightarrow> string \<Rightarrow> real \<Rightarrow> Graph" where
  "add_edge g src target prob =
     (let (u, g1) = get_internal_id g src;
          (v, g2) = get_internal_id g1 target
      in g2\<lparr>adj := (adj g2)[u := adj g2 ! u @ [\<lparr>to = v, probability = prob\<rparr>]]\<rparr>)"

definition set_node_value :: "Graph \<Rightarrow> string \<Rightarrow> real \<Rightarrow> Graph" where
  "set_node_value g gexf_id val =
     (let (u, g1) = get_internal_id g gexf_id
      in g1\<lparr>node_values := (node_values g1)[u := val],
            has_value := (has_value g1)[u := True]\<rparr>)"

definition num_nodes :: "Graph \<Rightarrow> nat" where
  "num_nodes g = length (reverse_id_map g)"

subsection \<open>Heap entries and the priority queue\<close>

record NodeGain =
  node_id :: nat
  marginal_gain :: real
  iteration_computed :: nat

text \<open>\<^verbatim>\<open>NodeGain::operator<\<close>.\<close>

definition NodeGain_less :: "NodeGain \<Rightarrow> NodeGain \<Rightarrow> bool" where
  "NodeGain_less a other =
     (if marginal_gain a = marginal_gain other then node_id a > node_id other
      else marginal_gain a < marginal_gain other)"

text \<open>The older variant's \<^verbatim>\<open>NodeGain::operator<\<close> compares the gains only.\<close>

definition NodeGain_less_root :: "NodeGain \<Rightarrow> NodeGain \<Rightarrow> bool" where
  "NodeGain_less_root a other = (marginal_gain a < marginal_gain other)"

text \<open>
  \<^verbatim>\<open>std::priority_queue<NodeGain>\<close> is a library container ordered by
  \<^verbatim>\<open>operator<\<close>. It is modelled by its contract: the queue is the list of its
  entries, \<open>pq_top\<close> is a greatest entry with respect to \<open>NodeGain_less\<close> (found by one
  scan), \<open>pq_pop\<close> removes that entry.
\<close>

fun pq_max :: "NodeGain \<Rightarrow> NodeGain list \<Rightarrow> NodeGain" where
  "pq_max m [] = m"
| "pq_max m (e # es) = pq_max (if NodeGain_less m e then e else m) es"

fun pq_top :: "NodeGain list \<Rightarrow> NodeGain" where
  "pq_top (e # es) = pq_max e es"
| "pq_top [] = undefined"

text \<open>The top is an entry of the queue.\<close>

lemma pq_max_mem: "pq_max m es \<in> set (m # es)"
  by (induction es arbitrary: m) auto

lemma pq_top_mem: "q \<noteq> [] \<Longrightarrow> pq_top q \<in> set q"
  using pq_max_mem by (cases q) auto

definition pq_pop :: "NodeGain list \<Rightarrow> NodeGain list" where
  "pq_pop q = remove1 (pq_top q) q"

definition pq_push :: "NodeGain \<Rightarrow> NodeGain list \<Rightarrow> NodeGain list" where
  "pq_push e q = q @ [e]"

subsection \<open>IC simulator: one rollout\<close>

type_synonym uint = "32 word"
type_synonym mt19937 = "real stream"

record sim_state =
  sim_last_seen :: "uint list"
  sim_q :: "nat list"
  sim_total_value :: real
  sim_rng :: mt19937

text \<open>The loop over \<^verbatim>\<open>seed_list\<close>.\<close>

fun mark_seeds :: "Graph \<Rightarrow> uint \<Rightarrow> nat list \<Rightarrow> sim_state \<Rightarrow> sim_state option" where
  "mark_seeds g seen_token [] st = Some st"
| "mark_seeds g seen_token (s # ss) st =
     (if s < length (sim_last_seen st) then
        if sim_last_seen st ! s \<noteq> seen_token then
          if s < length (node_values g) then
            mark_seeds g seen_token ss
              (st\<lparr>sim_last_seen := (sim_last_seen st)[s := seen_token],
                  sim_q := sim_q st @ [s],
                  sim_total_value := dadd (sim_total_value st) (node_values g ! s)\<rparr>)
          else None
        else mark_seeds g seen_token ss st
      else None)"

text \<open>The loop over \<^verbatim>\<open>g.adj[u]\<close>.\<close>

fun visit_edges :: "Graph \<Rightarrow> uint \<Rightarrow> Edge list \<Rightarrow> sim_state \<Rightarrow> sim_state option" where
  "visit_edges g seen_token [] st = Some st"
| "visit_edges g seen_token (edge # edges) st =
     (let v = to edge in
      if v < length (sim_last_seen st) then
        if sim_last_seen st ! v \<noteq> seen_token then
          (let r = shd (sim_rng st); st1 = st\<lparr>sim_rng := stl (sim_rng st)\<rparr> in
           if r \<le> probability edge then
             if v < length (node_values g) then
               visit_edges g seen_token edges
                 (st1\<lparr>sim_last_seen := (sim_last_seen st1)[v := seen_token],
                      sim_total_value := dadd (sim_total_value st1) (node_values g ! v),
                      sim_q := sim_q st1 @ [v]\<rparr>)
             else None
           else visit_edges g seen_token edges st1)
        else visit_edges g seen_token edges st
      else None)"

text \<open>
  The number of nodes not yet marked with the current token; every activation lowers it
  by one and lengthens the queue by one, which is why the breadth-first loop ends.
\<close>

definition inactive :: "uint \<Rightarrow> uint list \<Rightarrow> nat" where
  "inactive seen_token ls = length (filter (\<lambda>x. x \<noteq> seen_token) ls)"

lemma inactive_update:
  "v < length ls \<Longrightarrow> ls ! v \<noteq> tok \<Longrightarrow> Suc (inactive tok (ls[v := tok])) = inactive tok ls"
  unfolding inactive_def
proof (induction ls arbitrary: v)
  case Nil then show ?case by simp
next
  case (Cons x xs)
  then show ?case by (cases v) auto
qed

lemma visit_edges_measure:
  "visit_edges g tok es st = Some st' \<Longrightarrow>
   inactive tok (sim_last_seen st') + length (sim_q st')
     = inactive tok (sim_last_seen st) + length (sim_q st)
   \<and> inactive tok (sim_last_seen st') \<le> inactive tok (sim_last_seen st)"
proof (induction es arbitrary: st)
  case Nil then show ?case by simp
next
  case (Cons e es)
  show ?case
  proof (cases "to e < length (sim_last_seen st) \<and> sim_last_seen st ! to e \<noteq> tok
                \<and> shd (sim_rng st) \<le> probability e")
    case True
    with Cons.prems have lt: "to e < length (node_values g)"
      by (auto simp: Let_def split: if_splits)
    let ?st2 = "st\<lparr>sim_rng := stl (sim_rng st),
                   sim_last_seen := (sim_last_seen st)[to e := tok],
                   sim_total_value := dadd (sim_total_value st) (node_values g ! to e),
                   sim_q := sim_q st @ [to e]\<rparr>"
    from Cons.prems True lt have "visit_edges g tok es ?st2 = Some st'"
      by (simp add: Let_def)
    from Cons.IH[OF this] inactive_update[of "to e" "sim_last_seen st" tok] True
    show ?thesis by simp
  next
    case False
    with Cons.prems have "visit_edges g tok es st = Some st'
        \<or> visit_edges g tok es (st\<lparr>sim_rng := stl (sim_rng st)\<rparr>) = Some st'"
      by (auto simp: Let_def split: if_splits)
    then show ?thesis using Cons.IH by fastforce
  qed
qed

text \<open>The \<^verbatim>\<open>while (!q.empty())\<close> loop.\<close>

function bfs :: "Graph \<Rightarrow> uint \<Rightarrow> sim_state \<Rightarrow> sim_state option" where
  "bfs g seen_token st =
     (case sim_q st of
        [] \<Rightarrow> Some st
      | u # rest \<Rightarrow>
          if u < length (adj g) then
            (case visit_edges g seen_token (adj g ! u) (st\<lparr>sim_q := rest\<rparr>) of
               None \<Rightarrow> None
             | Some st' \<Rightarrow> bfs g seen_token st')
          else None)"
  by pat_completeness auto
termination
proof (relation "measure (\<lambda>(g, tok, st). 2 * inactive tok (sim_last_seen st) + length (sim_q st))")
  show "wf (measure (\<lambda>(g, tok, st). 2 * inactive tok (sim_last_seen st) + length (sim_q st)))"
    by simp
next
  fix g :: Graph and seen_token :: uint and st :: sim_state and u rest st'
  assume q: "sim_q st = u # rest"
    and v: "visit_edges g seen_token (adj g ! u) (st\<lparr>sim_q := rest\<rparr>) = Some st'"
  from visit_edges_measure[OF v] q
  show "((g, seen_token, st'), (g, seen_token, st))
        \<in> measure (\<lambda>(g, tok, st). 2 * inactive tok (sim_last_seen st) + length (sim_q st))"
    by simp
qed

declare bfs.simps [simp del]

definition run_weighted_simulation_token ::
  "Graph \<Rightarrow> nat list \<Rightarrow> mt19937 \<Rightarrow> uint list \<Rightarrow> uint \<Rightarrow> sim_state option" where
  "run_weighted_simulation_token g seed_list rng last_seen seen_token =
     (case mark_seeds g seen_token seed_list
             \<lparr>sim_last_seen = last_seen, sim_q = [], sim_total_value = 0, sim_rng = rng\<rparr> of
        None \<Rightarrow> None
      | Some st \<Rightarrow> bfs g seen_token st)"

subsection \<open>Spread estimator\<close>

text \<open>
  The state of the loop over \<^verbatim>\<open>mc_rounds\<close>. \<open>estimate_rounds\<close> runs the remaining
  rounds: \<^verbatim>\<open>++token\<close> wraps at \<open>2^32\<close>, and then the vector is refilled with zeros and
  the token restarts at 1.
\<close>

record est_state =
  est_total_spread :: real
  est_last_seen :: "uint list"
  est_token :: uint
  est_rng :: mt19937

fun estimate_rounds :: "Graph \<Rightarrow> nat list \<Rightarrow> nat \<Rightarrow> est_state \<Rightarrow> est_state option" where
  "estimate_rounds g seed_list 0 es = Some es"
| "estimate_rounds g seed_list (Suc i) es =
     (let token1 = est_token es + 1;
          wrapped = (token1 = 0);
          token2 = (if wrapped then 1 else token1);
          last_seen2 = (if wrapped then replicate (length (est_last_seen es)) 0
                        else est_last_seen es)
      in case run_weighted_simulation_token g seed_list (est_rng es) last_seen2 token2 of
           None \<Rightarrow> None
         | Some st \<Rightarrow>
             estimate_rounds g seed_list i
               \<lparr>est_total_spread = dadd (est_total_spread es) (sim_total_value st),
                est_last_seen = sim_last_seen st,
                est_token = token2,
                est_rng = sim_rng st\<rparr>)"

definition estimate_weighted_spread ::
  "Graph \<Rightarrow> nat list \<Rightarrow> int \<Rightarrow> mt19937 \<Rightarrow> (real \<times> mt19937) option" where
  "estimate_weighted_spread g seed_list mc_rounds rng =
     (case estimate_rounds g seed_list (nat mc_rounds)
             \<lparr>est_total_spread = 0,
              est_last_seen = replicate (num_nodes g) 0,
              est_token = 1,
              est_rng = rng\<rparr> of
        None \<Rightarrow> None
      | Some es \<Rightarrow> Some (ddiv (est_total_spread es) (real_of_int mc_rounds), est_rng es))"

subsection \<open>CELF driver\<close>

text \<open>
  The lines written to \<^verbatim>\<open>std::cout\<close> and \<^verbatim>\<open>std::cerr\<close>, one constructor per
  output statement of the program, with the values it prints.
\<close>

datatype out_line =
    ParsingGEXF
  | NodesLine nat
  | EligibleLine nat
  | RunningLine int
  | InitializingCELF nat
  | SelectedNode string real real real
  | Separator
  | SelectedSeeds "string list"
  | TimeLine

datatype err_line =
    Usage string
  | FoundAttributeID string string
  | WarnAttributeNotFound string
  | WarnQueueExhausted int nat
  | ErrorLine string

text \<open>\<^verbatim>\<open>std::set<int>\<close>: the ascending list of its elements.\<close>

definition set_insert :: "nat \<Rightarrow> nat list \<Rightarrow> nat list" where
  "set_insert x xs = (if x \<in> set xs then xs else insort x xs)"

text \<open>
  The variables of \<^verbatim>\<open>celf_weighted_influence\<close> after Phase 1, with the two streams it
  writes to. \<open>rng_count\<close> counts the generators constructed so far in Phase 2.

  Every generator of the driver is seeded from \<^verbatim>\<open>std::random_device\<close> and the clock, so
  its state is an input of the model: \<open>rng1 i\<close> is the state of the worker's generator
  when it estimates node \<open>i\<close> in Phase 1 (whatever the partition of the nodes over the
  threads), and \<open>rng2 j\<close> is the \<open>j\<close>-th generator constructed in Phase 2.
\<close>

record celf_state =
  seeds :: "nat list"
  pq :: "NodeGain list"
  current_val :: real
  found_best :: bool
  cout :: "out_line list"
  cerr :: "err_line list"
  rng_count :: nat

text \<open>
  Phase 1, \<^verbatim>\<open>for (int i = 0; i < n; ++i)\<close>. The workers' private queues are merged
  into one queue; the model pushes onto that queue directly.
\<close>

fun celf_init ::
  "Graph \<Rightarrow> int \<Rightarrow> (nat \<Rightarrow> mt19937) \<Rightarrow> nat list \<Rightarrow> NodeGain list \<Rightarrow> NodeGain list option" where
  "celf_init g mc_rounds rng1 [] local_pq = Some local_pq"
| "celf_init g mc_rounds rng1 (i # rest) local_pq =
     (if i < length (has_value g) then
        if \<not> has_value g ! i then celf_init g mc_rounds rng1 rest local_pq
        else
          (case estimate_weighted_spread g [i] mc_rounds (rng1 i) of
             None \<Rightarrow> None
           | Some (spread, rng') \<Rightarrow>
               celf_init g mc_rounds rng1 rest
                 (pq_push \<lparr>node_id = i, marginal_gain = spread, iteration_computed = 0\<rparr>
                    local_pq))
      else None)"

text \<open>One pass through the body of \<^verbatim>\<open>while (!found_best && !pq.empty())\<close>.\<close>

definition celf_body ::
  "Graph \<Rightarrow> int \<Rightarrow> (nat \<Rightarrow> mt19937) \<Rightarrow> celf_state \<Rightarrow> celf_state option" where
  "celf_body g mc_rounds rng2 st =
     (let top = pq_top (pq st);
          st1 = st\<lparr>pq := pq_pop (pq st)\<rparr>
      in if node_id top \<in> set (seeds st1) then Some st1
         else if iteration_computed top = length (seeds st1) then
           if node_id top < length (reverse_id_map g) \<and> node_id top < length (node_values g)
           then
             (let val = dadd (current_val st1) (marginal_gain top) in
              Some (st1\<lparr>seeds := set_insert (node_id top) (seeds st1),
                        current_val := val,
                        found_best := True,
                        cout := cout st1 @
                          [SelectedNode (reverse_id_map g ! node_id top)
                             (node_values g ! node_id top) (marginal_gain top) val]\<rparr>))
           else None
         else
           (let temp_seeds = seeds st1 @ [node_id top] in
            case estimate_weighted_spread g temp_seeds mc_rounds (rng2 (rng_count st1)) of
              None \<Rightarrow> None
            | Some (new_val, rng') \<Rightarrow>
                Some (st1\<lparr>pq := pq_push
                               \<lparr>node_id = node_id top,
                                marginal_gain = dsub new_val (current_val st1),
                                iteration_computed = length (seeds st1)\<rparr>
                               (pq st1),
                          rng_count := Suc (rng_count st1)\<rparr>)))"

text \<open>
  The loop ends: a pass either commits, or shortens the queue, or replaces a stale entry
  by a fresh one.
\<close>

definition stale :: "celf_state \<Rightarrow> nat" where
  "stale st = length (filter (\<lambda>e. iteration_computed e \<noteq> length (seeds st)) (pq st))"

definition celf_measure :: "celf_state \<Rightarrow> nat" where
  "celf_measure st = (if found_best st then 0 else 1 + length (pq st) + stale st)"

lemma length_filter_remove1:
  "x \<in> set xs \<Longrightarrow>
   length (filter P xs) = length (filter P (remove1 x xs)) + (if P x then 1 else 0)"
  by (induction xs) auto

lemma length_remove1_Suc: "x \<in> set xs \<Longrightarrow> length xs = Suc (length (remove1 x xs))"
  by (induction xs) auto

lemma celf_body_measure:
  assumes "celf_body g mc rng2 st = Some st'" "\<not> found_best st" "pq st \<noteq> []"
  shows "celf_measure st' < celf_measure st"
proof -
  let ?top = "pq_top (pq st)"
  let ?P = "\<lambda>e. iteration_computed e \<noteq> length (seeds st)"
  from assms(3) have mem: "?top \<in> set (pq st)" by (rule pq_top_mem)
  then have len: "length (pq st) = Suc (length (pq_pop (pq st)))"
    unfolding pq_pop_def by (rule length_remove1_Suc)
  have fl: "length (filter ?P (pq st))
            = length (filter ?P (pq_pop (pq st))) + (if ?P ?top then 1 else 0)"
    unfolding pq_pop_def by (rule length_filter_remove1[OF mem])
  consider (discard) "node_id ?top \<in> set (seeds st)"
    | (commit) "node_id ?top \<notin> set (seeds st)" "iteration_computed ?top = length (seeds st)"
    | (recompute) "node_id ?top \<notin> set (seeds st)" "iteration_computed ?top \<noteq> length (seeds st)"
    by blast
  then show ?thesis
  proof cases
    case discard
    with assms(1) have "st' = st\<lparr>pq := pq_pop (pq st)\<rparr>"
      by (simp add: celf_body_def Let_def)
    with assms(2) len fl show ?thesis by (simp add: celf_measure_def stale_def)
  next
    case commit
    with assms(1) have "found_best st'"
      by (auto simp: celf_body_def Let_def split: if_splits)
    with assms(2) show ?thesis by (simp add: celf_measure_def)
  next
    case recompute
    with assms(1) obtain e where
      st': "st' = st\<lparr>pq := pq_push e (pq_pop (pq st)), rng_count := Suc (rng_count st)\<rparr>"
      and e: "iteration_computed e = length (seeds st)"
      by (auto simp: celf_body_def Let_def split: option.splits)
    from recompute(2) fl have "length (filter ?P (pq st)) = Suc (length (filter ?P (pq_pop (pq st))))"
      by simp
    with st' e assms(2) len show ?thesis
      by (simp add: celf_measure_def stale_def pq_push_def)
  qed
qed

function celf_inner ::
  "Graph \<Rightarrow> int \<Rightarrow> (nat \<Rightarrow> mt19937) \<Rightarrow> celf_state \<Rightarrow> celf_state option" where
  "celf_inner g mc_rounds rng2 st =
     (if \<not> found_best st \<and> pq st \<noteq> [] then
        (case celf_body g mc_rounds rng2 st of
           None \<Rightarrow> None
         | Some st' \<Rightarrow> celf_inner g mc_rounds rng2 st')
      else Some st)"
  by pat_completeness auto
termination
proof (relation "measure (\<lambda>(g, mc, rng2, st). celf_measure st)")
  show "wf (measure (\<lambda>(g, mc, rng2, st). celf_measure st))" by simp
next
  fix g :: Graph and mc_rounds :: int and rng2 :: "nat \<Rightarrow> mt19937" and st st' :: celf_state
  assume "\<not> found_best st \<and> pq st \<noteq> []" "celf_body g mc_rounds rng2 st = Some st'"
  then show "((g, mc_rounds, rng2, st'), (g, mc_rounds, rng2, st))
             \<in> measure (\<lambda>(g, mc, rng2, st). celf_measure st)"
    using celf_body_measure by simp
qed

declare celf_inner.simps [simp del]

text \<open>\<^verbatim>\<open>for (int iteration = 0; iteration < k; ++iteration)\<close>, by the iterations left.\<close>

fun celf_outer ::
  "Graph \<Rightarrow> int \<Rightarrow> int \<Rightarrow> (nat \<Rightarrow> mt19937) \<Rightarrow> nat \<Rightarrow> celf_state \<Rightarrow> celf_state option" where
  "celf_outer g k mc_rounds rng2 0 st = Some st"
| "celf_outer g k mc_rounds rng2 (Suc remaining) st =
     (case celf_inner g mc_rounds rng2 (st\<lparr>found_best := False\<rparr>) of
        None \<Rightarrow> None
      | Some st' \<Rightarrow>
          if \<not> found_best st' then
            Some (st'\<lparr>cerr := cerr st' @ [WarnQueueExhausted k (length (seeds st'))]\<rparr>)
          else celf_outer g k mc_rounds rng2 remaining st')"

definition celf_weighted_influence ::
  "Graph \<Rightarrow> int \<Rightarrow> int \<Rightarrow> (nat \<Rightarrow> mt19937) \<Rightarrow> (nat \<Rightarrow> mt19937) \<Rightarrow> celf_state option" where
  "celf_weighted_influence g k mc_rounds rng1 rng2 =
     (case celf_init g mc_rounds rng1 [0..<num_nodes g] [] of
        None \<Rightarrow> None
      | Some q \<Rightarrow>
          celf_outer g k mc_rounds rng2 (nat k)
            \<lparr>seeds = [], pq = q, current_val = 0, found_best = False,
             cout = [InitializingCELF (num_nodes g)], cerr = [], rng_count = 0\<rparr>)"

subsection \<open>String scanning\<close>

text \<open>\<^verbatim>\<open>std::string::find(needle, pos)\<close>: the first index at or after \<open>pos\<close> where
  \<open>needle\<close> starts, \<open>None\<close> for \<^verbatim>\<open>npos\<close>; and \<^verbatim>\<open>substr(pos, len)\<close>.\<close>

fun find_at :: "string \<Rightarrow> string \<Rightarrow> nat \<Rightarrow> nat option" where
  "find_at needle [] i = (if needle = [] then Some i else None)"
| "find_at needle (c # cs) i =
     (if prefix needle (c # cs) then Some i else find_at needle cs (Suc i))"

definition str_find :: "string \<Rightarrow> string \<Rightarrow> nat \<Rightarrow> nat option" where
  "str_find s needle pos = (if pos \<le> length s then find_at needle (drop pos s) pos else None)"

definition substr :: "string \<Rightarrow> nat \<Rightarrow> nat \<Rightarrow> string" where
  "substr s pos len = take len (drop pos s)"

definition get_xml_attr :: "string \<Rightarrow> string \<Rightarrow> string" where
  "get_xml_attr tag attr =
     (let needle = attr @ [CHR ''='', CHR 0x22] in
      case str_find tag needle 0 of
        None \<Rightarrow> ''''
      | Some start0 \<Rightarrow>
          (let start = start0 + length needle in
           case str_find tag [CHR 0x22] start of
             None \<Rightarrow> ''''
           | Some end_pos \<Rightarrow> substr tag start (end_pos - start)))"

lemma find_at_Some:
  "find_at needle s i = Some j \<Longrightarrow> i \<le> j \<and> j - i \<le> length s \<and> prefix needle (drop (j - i) s)"
proof (induction s arbitrary: i)
  case Nil
  then show ?case by (auto split: if_splits)
next
  case (Cons c cs)
  show ?case
  proof (cases "prefix needle (c # cs)")
    case True
    with Cons.prems show ?thesis by simp
  next
    case False
    with Cons.prems have "find_at needle cs (Suc i) = Some j" by simp
    from Cons.IH[OF this] have ih: "Suc i \<le> j" "j - Suc i \<le> length cs"
      "prefix needle (drop (j - Suc i) cs)" by auto
    from ih(1) have "j - i = Suc (j - Suc i)" by simp
    with ih show ?thesis by simp
  qed
qed

lemma str_find_Some:
  assumes "str_find s needle pos = Some j"
  shows "pos \<le> j \<and> j \<le> length s \<and> prefix needle (drop j s)"
proof -
  from assms have p: "pos \<le> length s" and f: "find_at needle (drop pos s) pos = Some j"
    by (auto simp: str_find_def split: if_splits)
  from find_at_Some[OF f] p show ?thesis by (auto simp: add.commute)
qed

lemma str_find_nonempty:
  assumes "str_find s (c # cs) pos = Some j"
  shows "pos \<le> j \<and> j < length s \<and> s ! j = c"
proof -
  from str_find_Some[OF assms] have a: "pos \<le> j" "j \<le> length s" "prefix (c # cs) (drop j s)"
    by auto
  from a(3) obtain r where "drop j s = c # r" by (cases "drop j s") auto
  with a show ?thesis
    by (metis drop_eq_Nil2 hd_drop_conv_nth leI list.sel(1) list.simps(3))
qed

subsection \<open>GEXF parser\<close>

text \<open>The first loop: the id of the attribute whose title is the requested name.\<close>

function find_attribute_id :: "string \<Rightarrow> string \<Rightarrow> nat \<Rightarrow> string \<times> err_line list" where
  "find_attribute_id content target_attr_name pos =
     (case str_find content ''<attribute'' pos of
        None \<Rightarrow> ('''', [])
      | Some attr_pos \<Rightarrow>
          (case str_find content ''>'' attr_pos of
             None \<Rightarrow> ('''', [])
           | Some end_pos \<Rightarrow>
               (let tag = substr content attr_pos (end_pos - attr_pos + 1);
                    title = get_xml_attr tag ''title''
                in if title = target_attr_name then
                     (let target_attr_id = get_xml_attr tag ''id''
                      in (target_attr_id, [FoundAttributeID title target_attr_id]))
                   else find_attribute_id content target_attr_name (end_pos + 1))))"
  by pat_completeness auto
termination
proof (relation "measure (\<lambda>(content, name, pos). length content - pos)")
  show "wf (measure (\<lambda>(content, name, pos). length content - pos))" by simp
next
  fix content target_attr_name :: string and pos attr_pos end_pos :: nat
  assume "str_find content ''<attribute'' pos = Some attr_pos"
    "str_find content ''>'' attr_pos = Some end_pos"
  from str_find_nonempty[OF this(1)] str_find_nonempty[OF this(2)]
  show "((content, target_attr_name, end_pos + 1), (content, target_attr_name, pos))
        \<in> measure (\<lambda>(content, name, pos). length content - pos)"
    by auto
qed

declare find_attribute_id.simps [simp del]

text \<open>The loop over the \<^verbatim>\<open><attvalue\<close> tags of one node block. \<open>stod\<close> is
  \<^verbatim>\<open>std::stod\<close>, \<open>None\<close> when it throws (the exception is caught and ignored).\<close>

function scan_attvalues ::
  "(string \<Rightarrow> real option) \<Rightarrow> string \<Rightarrow> string \<Rightarrow> string \<Rightarrow> nat \<Rightarrow> Graph \<Rightarrow> Graph" where
  "scan_attvalues stod node_block target_attr_id gexf_node_id p g =
     (case str_find node_block ''<attvalue'' p of
        None \<Rightarrow> g
      | Some av \<Rightarrow>
          (case str_find node_block ''>'' av of
             None \<Rightarrow> g
           | Some av_end \<Rightarrow>
               (let av_tag = substr node_block av (av_end - av + 1);
                    for_id = get_xml_attr av_tag ''for'';
                    g' = (if target_attr_id \<noteq> '''' \<and> for_id = target_attr_id then
                            (let val_str = get_xml_attr av_tag ''value'' in
                             if val_str \<noteq> '''' then
                               (case stod val_str of
                                  Some val \<Rightarrow> set_node_value g gexf_node_id val
                                | None \<Rightarrow> g)
                             else g)
                          else g)
                in scan_attvalues stod node_block target_attr_id gexf_node_id (av_end + 1) g')))"
  by pat_completeness auto
termination
proof (relation "measure (\<lambda>(stod, node_block, tid, nid, p, g). length node_block - p)")
  show "wf (measure (\<lambda>(stod, node_block, tid, nid, p, g). length node_block - p))" by simp
next
  fix stod :: "string \<Rightarrow> real option" and node_block target_attr_id gexf_node_id :: string
    and p av av_end :: nat and g :: Graph and x xa xb
  assume "str_find node_block ''<attvalue'' p = Some av"
    "str_find node_block ''>'' av = Some av_end"
  from str_find_nonempty[OF this(1)] str_find_nonempty[OF this(2)]
  show "((stod, node_block, target_attr_id, gexf_node_id, av_end + 1, xb),
         (stod, node_block, target_attr_id, gexf_node_id, p, g))
        \<in> measure (\<lambda>(stod, node_block, tid, nid, p, g). length node_block - p)"
    by auto
qed

declare scan_attvalues.simps [simp del]

text \<open>The second loop, over the \<^verbatim>\<open><node\<close> tags.\<close>

function parse_nodes ::
  "(string \<Rightarrow> real option) \<Rightarrow> string \<Rightarrow> string \<Rightarrow> nat \<Rightarrow> Graph \<Rightarrow> Graph" where
  "parse_nodes stod content target_attr_id pos g =
     (case str_find content ''<node'' pos of
        None \<Rightarrow> g
      | Some node_pos \<Rightarrow>
          (case str_find content ''>'' node_pos of
             None \<Rightarrow> g
           | Some node_tag_end \<Rightarrow>
               (let self_closing = (content ! (node_tag_end - 1) = CHR ''/'');
                    block_end =
                      (if \<not> self_closing then
                         (case str_find content ''</node>'' (node_tag_end + 1) of
                            None \<Rightarrow> None
                          | Some close_pos \<Rightarrow> Some (close_pos + 7))
                       else Some node_tag_end)
                in case block_end of
                     None \<Rightarrow> g
                   | Some node_block_end \<Rightarrow>
                       (let node_block = substr content node_pos (node_block_end - node_pos);
                            gexf_node_id = get_xml_attr
                                        (substr node_block 0 (node_tag_end - node_pos + 1))
                                        ''id'';
                            g' = (if gexf_node_id \<noteq> '''' then
                                    (let (u, g1) = get_internal_id g gexf_node_id in
                                     scan_attvalues stod node_block target_attr_id gexf_node_id 0 g1)
                                  else g)
                        in parse_nodes stod content target_attr_id node_block_end g'))))"
  by pat_completeness auto
termination
proof (relation "measure (\<lambda>(stod, content, tid, pos, g). length content - pos)")
  show "wf (measure (\<lambda>(stod, content, tid, pos, g). length content - pos))" by simp
next
  fix stod :: "string \<Rightarrow> real option" and content target_attr_id :: string
    and pos node_pos node_tag_end node_block_end :: nat and g :: Graph
    and x xa xb xc xd
  assume a: "str_find content ''<node'' pos = Some node_pos"
    "str_find content ''>'' node_pos = Some node_tag_end"
    and x: "x = (content ! (node_tag_end - 1) = CHR ''/'')"
    and xa: "xa = (if \<not> x then case str_find content ''</node>'' (node_tag_end + 1) of
                     None \<Rightarrow> None | Some close_pos \<Rightarrow> Some (close_pos + 7)
                   else Some node_tag_end)"
    and be: "xa = Some node_block_end"
  from str_find_nonempty[OF a(1)] have n1: "pos \<le> node_pos" "node_pos < length content"
    "content ! node_pos = CHR ''<''" by auto
  from str_find_nonempty[OF a(2)] have n2: "node_pos \<le> node_tag_end"
    "node_tag_end < length content" "content ! node_tag_end = CHR ''>''" by auto
  from n1(3) n2(1,3) have lt: "node_pos < node_tag_end" by (cases "node_pos = node_tag_end") auto
  have ge: "node_tag_end \<le> node_block_end"
  proof (cases x)
    case True
    with xa be show ?thesis by simp
  next
    case False
    with xa be obtain close_pos where
      c: "str_find content ''</node>'' (node_tag_end + 1) = Some close_pos"
      "node_block_end = close_pos + 7"
      by (auto split: option.splits)
    from str_find_nonempty[OF c(1)] c(2) show ?thesis by simp
  qed
  from n1 n2 lt ge
  show "((stod, content, target_attr_id, node_block_end, xd), (stod, content, target_attr_id, pos, g))
        \<in> measure (\<lambda>(stod, content, tid, pos, g). length content - pos)"
    by simp
qed

declare parse_nodes.simps [simp del]

text \<open>The third loop, over the \<^verbatim>\<open><edge\<close> tags.\<close>

function parse_edges :: "(string \<Rightarrow> real option) \<Rightarrow> string \<Rightarrow> nat \<Rightarrow> Graph \<Rightarrow> Graph" where
  "parse_edges stod content pos g =
     (case str_find content ''<edge'' pos of
        None \<Rightarrow> g
      | Some edge_pos \<Rightarrow>
          (case str_find content ''>'' edge_pos of
             None \<Rightarrow> g
           | Some edge_end \<Rightarrow>
               (let tag = substr content edge_pos (edge_end - edge_pos + 1);
                    s = get_xml_attr tag ''source'';
                    t = get_xml_attr tag ''target'';
                    w_str = get_xml_attr tag ''weight'';
                    prob = (if w_str \<noteq> '''' then
                              (case stod w_str of Some w \<Rightarrow> w | None \<Rightarrow> rnd (1/10))
                            else rnd (1/10));
                    g' = (if s \<noteq> '''' \<and> t \<noteq> '''' then add_edge g s t prob else g)
                in parse_edges stod content (edge_end + 1) g')))"
  by pat_completeness auto
termination
proof (relation "measure (\<lambda>(stod, content, pos, g). length content - pos)")
  show "wf (measure (\<lambda>(stod, content, pos, g). length content - pos))" by simp
next
  fix stod :: "string \<Rightarrow> real option" and content :: string
    and pos edge_pos edge_end :: nat and g :: Graph and x xa xb xc xd xe
  assume "str_find content ''<edge'' pos = Some edge_pos"
    "str_find content ''>'' edge_pos = Some edge_end"
  from str_find_nonempty[OF this(1)] str_find_nonempty[OF this(2)]
  show "((stod, content, edge_end + 1, xe), (stod, content, pos, g))
        \<in> measure (\<lambda>(stod, content, pos, g). length content - pos)"
    by auto
qed

declare parse_edges.simps [simp del]

text \<open>
  What the third loop reads: the \<^verbatim>\<open>source\<close>, \<^verbatim>\<open>target\<close> and \<^verbatim>\<open>weight\<close> texts of the
  tags it scans, in the order of the scan, and the probability it computes from a weight
  text.
\<close>

function edge_tags :: "string \<Rightarrow> nat \<Rightarrow> (string \<times> string \<times> string) list" where
  "edge_tags content pos =
     (case str_find content ''<edge'' pos of
        None \<Rightarrow> []
      | Some edge_pos \<Rightarrow>
          (case str_find content ''>'' edge_pos of
             None \<Rightarrow> []
           | Some edge_end \<Rightarrow>
               (let tag = substr content edge_pos (edge_end - edge_pos + 1)
                in (get_xml_attr tag ''source'', get_xml_attr tag ''target'',
                    get_xml_attr tag ''weight'')
                   # edge_tags content (edge_end + 1))))"
  by pat_completeness auto
termination
proof (relation "measure (\<lambda>(content, pos). length content - pos)")
  show "wf (measure (\<lambda>(content, pos). length content - pos))" by simp
next
  fix content :: string and pos edge_pos edge_end :: nat and x
  assume "str_find content ''<edge'' pos = Some edge_pos"
    "str_find content ''>'' edge_pos = Some edge_end"
  from str_find_nonempty[OF this(1)] str_find_nonempty[OF this(2)]
  show "((content, edge_end + 1), (content, pos))
        \<in> measure (\<lambda>(content, pos). length content - pos)"
    by auto
qed

declare edge_tags.simps [simp del]

definition weight_prob :: "(string \<Rightarrow> real option) \<Rightarrow> string \<Rightarrow> real" where
  "weight_prob stod w_str =
     (if w_str \<noteq> '''' then (case stod w_str of Some w \<Rightarrow> w | None \<Rightarrow> rnd (1/10))
      else rnd (1/10))"

text \<open>\<^verbatim>\<open>GEXFParser::parse\<close>. \<open>fs\<close> gives the content of the files that can be opened;
  \<open>Inl\<close> carries the message of the exception thrown.\<close>

definition parse ::
  "(string \<Rightarrow> real option) \<Rightarrow> (string \<Rightarrow> string option) \<Rightarrow> string \<Rightarrow> string
   \<Rightarrow> string + Graph \<times> err_line list" where
  "parse stod fs filename target_attr_name =
     (case fs filename of
        None \<Rightarrow> Inl ''Cannot open file''
      | Some content \<Rightarrow>
          (let (target_attr_id, found) = find_attribute_id content target_attr_name 0;
               warning = (if target_attr_id = '''' then [WarnAttributeNotFound target_attr_name]
                          else []);
               g1 = parse_nodes stod content target_attr_id 0 empty_graph;
               g2 = parse_edges stod content 0 g1
           in Inr (g2, found @ warning)))"

subsection \<open>The standard library's number parsers\<close>

text \<open>
  \<^verbatim>\<open>std::stoi\<close> and \<^verbatim>\<open>std::stod\<close> belong to the C++ library, so the program's functions
  take them as parameters: a function from strings to \<open>Some\<close> number, or \<open>None\<close> when the
  call throws. For the worked examples \<open>std_stoi\<close> and \<open>std_stod\<close> follow the library's
  documented behaviour on decimal input: leading white space, an optional sign, digits
  (for \<open>std_stod\<close> an optional fraction, the value rounded to binary64); what follows is
  ignored; no digits is an exception, and so is an integer outside the range of
  \<^verbatim>\<open>int\<close>. Exponents, hexadecimal input, infinities and NaN are not covered by
  \<open>std_stod\<close>.
\<close>

definition isspace :: "char \<Rightarrow> bool" where
  "isspace c \<longleftrightarrow> c \<in> set [CHR '' '', CHR 0x09, CHR 0x0A, CHR 0x0B, CHR 0x0C, CHR 0x0D]"

definition isdigit :: "char \<Rightarrow> bool" where
  "isdigit c \<longleftrightarrow> c \<in> set ''0123456789''"

definition digit_val :: "char \<Rightarrow> nat" where
  "digit_val c = of_char c - 48"

definition decimal :: "string \<Rightarrow> nat" where
  "decimal ds = foldl (\<lambda>a c. 10 * a + digit_val c) 0 ds"

definition split_sign :: "string \<Rightarrow> bool \<times> string" where
  "split_sign s =
     (case s of
        [] \<Rightarrow> (False, [])
      | c # r \<Rightarrow> if c = CHR ''-'' then (True, r) else if c = CHR ''+'' then (False, r)
                 else (False, s))"

definition std_stoi :: "string \<Rightarrow> int option" where
  "std_stoi str =
     (let (neg, s) = split_sign (dropWhile isspace str);
          ds = takeWhile isdigit s
      in if ds = [] then None
         else (let v = (if neg then - int (decimal ds) else int (decimal ds))
               in if v < - 2147483648 \<or> 2147483647 < v then None else Some v))"

definition std_stod :: "string \<Rightarrow> real option" where
  "std_stod str =
     (let (neg, s) = split_sign (dropWhile isspace str);
          ip = takeWhile isdigit s;
          rest = dropWhile isdigit s;
          fp = (case rest of
                  [] \<Rightarrow> []
                | c # r \<Rightarrow> if c = CHR ''.'' then takeWhile isdigit r else [])
      in if ip = [] \<and> fp = [] then None
         else (let m = real (decimal ip) + real (decimal fp) / 10 ^ length fp
               in Some (rnd (if neg then - m else m))))"

subsection \<open>The program\<close>

text \<open>
  What the process reads from outside: the two library parsers, the files that can be
  opened, and the generator states (see \<open>celf_state\<close>).
\<close>

record environment =
  env_stoi :: "string \<Rightarrow> int option"
  env_stod :: "string \<Rightarrow> real option"
  env_fs :: "string \<Rightarrow> string option"
  env_rng1 :: "nat \<Rightarrow> mt19937"
  env_rng2 :: "nat \<Rightarrow> mt19937"

text \<open>
  How the process ends: \<^verbatim>\<open>return n\<close> from \<^verbatim>\<open>main\<close>, or \<^verbatim>\<open>std::terminate\<close> after an
  exception that nothing catches (the process is aborted; it has no exit code of its own
  choosing).
\<close>

datatype exit_status = Exit int | Terminated

record run_result =
  status :: exit_status
  stdout :: "out_line list"
  stderr :: "err_line list"

definition DEFAULT_MC_ROUNDS :: int where
  "DEFAULT_MC_ROUNDS = 1000"

text \<open>
  \<^verbatim>\<open>main\<close>. \<open>argv\<close> holds the program name followed by the arguments. The result is
  \<open>None\<close> only where the C++ would index a vector out of range. What the C++ runtime itself
  prints when it terminates the process is not part of the model.
\<close>

definition main :: "environment \<Rightarrow> string list \<Rightarrow> run_result option" where
  "main env argv =
     (case argv of
        [] \<Rightarrow> None
      | prog # args \<Rightarrow>
          (let argc = length argv in
           if argc < 4 \<or> argc > 5 then
             Some \<lparr>status = Exit 1, stdout = [], stderr = [Usage prog]\<rparr>
           else
             (let filename = argv ! 1 in
              case env_stoi env (argv ! 2) of
                None \<Rightarrow> Some \<lparr>status = Terminated, stdout = [], stderr = []\<rparr>
              | Some k \<Rightarrow>
                  (let attr_name = argv ! 3 in
                   case (if argc = 5 then env_stoi env (argv ! 4) else Some DEFAULT_MC_ROUNDS) of
                     None \<Rightarrow> Some \<lparr>status = Terminated, stdout = [], stderr = []\<rparr>
                   | Some mc_rounds \<Rightarrow>
                       (case parse (env_stod env) (env_fs env) filename attr_name of
                          Inl msg \<Rightarrow>
                            Some \<lparr>status = Exit 1, stdout = [ParsingGEXF],
                                  stderr = [ErrorLine msg]\<rparr>
                        | Inr (g, parse_err) \<Rightarrow>
                            if num_nodes g \<le> length (has_value g) then
                              (let eligible_count =
                                     length (filter (\<lambda>i. has_value g ! i) [0..<num_nodes g]);
                                   head = [ParsingGEXF, NodesLine (num_nodes g),
                                           EligibleLine eligible_count, RunningLine mc_rounds]
                               in case celf_weighted_influence g k mc_rounds
                                         (env_rng1 env) (env_rng2 env) of
                                    None \<Rightarrow> None
                                  | Some st \<Rightarrow>
                                      if \<forall>s\<in>set (seeds st). s < length (reverse_id_map g) then
                                        Some \<lparr>status = Exit 0,
                                              stdout = head @ cout st @
                                                [Separator,
                                                 SelectedSeeds
                                                   (map (\<lambda>s. reverse_id_map g ! s) (seeds st)),
                                                 TimeLine],
                                              stderr = parse_err @ cerr st\<rparr>
                                      else None)
                            else None)))))"

text \<open>The number printed as the count of eligible seeds, and what a run that reaches the end
  of \<^verbatim>\<open>main\<close> has written and returned.\<close>

definition eligible_count :: "Graph \<Rightarrow> nat" where
  "eligible_count g = length (filter (\<lambda>i. has_value g ! i) [0..<num_nodes g])"

definition success_result :: "Graph \<Rightarrow> int \<Rightarrow> err_line list \<Rightarrow> celf_state \<Rightarrow> run_result" where
  "success_result g mc_rounds parse_err st =
     \<lparr>status = Exit 0,
      stdout = [ParsingGEXF, NodesLine (num_nodes g), EligibleLine (eligible_count g),
                RunningLine mc_rounds] @ cout st @
               [Separator, SelectedSeeds (map (\<lambda>s. reverse_id_map g ! s) (seeds st)),
                TimeLine],
      stderr = parse_err @ cerr st\<rparr>"

subsection \<open>Well-formed graphs, reachability, invariants\<close>

text \<open>The invariants of the graph: the per-node vectors have one entry per node, and every
  id stored in \<open>id_map\<close> or in an adjacency list is a valid index.\<close>

definition wf_graph :: "Graph \<Rightarrow> bool" where
  "wf_graph g \<longleftrightarrow>
     length (adj g) = num_nodes g \<and> length (node_values g) = num_nodes g
     \<and> length (has_value g) = num_nodes g
     \<and> (\<forall>x i. id_map g x = Some i \<longrightarrow> i < num_nodes g)
     \<and> (\<forall>es\<in>set (adj g). \<forall>e\<in>set es. to e < num_nodes g)"

text \<open>The edge relation and the nodes reachable from a seed set along edges of any probability.\<close>

definition edge_rel :: "Graph \<Rightarrow> (nat \<times> nat) set" where
  "edge_rel g = {(u, v). u < length (adj g) \<and> v \<in> to ` set (adj g ! u)}"

definition reachable :: "Graph \<Rightarrow> nat set \<Rightarrow> nat set" where
  "reachable g S = (edge_rel g)\<^sup>* `` S"

text \<open>The sum of the values over the nodes reachable from the seeds.\<close>

definition spread_bound :: "Graph \<Rightarrow> nat list \<Rightarrow> real" where
  "spread_bound g seed_list = (\<Sum>i\<in>reachable g (set seed_list). node_values g ! i)"

text \<open>A token is fresh for an activation vector when no entry carries it: no node counts
  as activated yet.\<close>

definition fresh_token :: "uint \<Rightarrow> uint list \<Rightarrow> bool" where
  "fresh_token tok ls \<longleftrightarrow> (\<forall>x\<in>set ls. x \<noteq> tok)"

text \<open>Notions used in the proofs: the nodes marked with the token, the invariant of a rollout
  (the total is at most the exact sum over the activated nodes, enlarged by one rounding
  per addition), closure of a node set under the edges, and the invariant of the estimator
  loop.\<close>

definition active :: "uint \<Rightarrow> uint list \<Rightarrow> nat set" where
  "active tok ls = {i. i < length ls \<and> ls ! i = tok}"

definition sim_inv :: "Graph \<Rightarrow> uint \<Rightarrow> nat set \<Rightarrow> sim_state \<Rightarrow> bool" where
  "sim_inv g tok R st \<longleftrightarrow>
     length (sim_last_seen st) = num_nodes g
     \<and> set (sim_q st) \<subseteq> active tok (sim_last_seen st)
     \<and> active tok (sim_last_seen st) \<subseteq> R
     \<and> ((\<forall>v\<in>set (node_values g). 0 \<le> v) \<longrightarrow>
          0 \<le> sim_total_value st
          \<and> sim_total_value st
              \<le> (\<Sum>i\<in>active tok (sim_last_seen st). node_values g ! i)
                  * (1 + unit_roundoff) ^ card (active tok (sim_last_seen st)))"

definition closed_under :: "Graph \<Rightarrow> nat set \<Rightarrow> bool" where
  "closed_under g R \<longleftrightarrow> (\<forall>u\<in>R. \<forall>v. (u, v) \<in> edge_rel g \<longrightarrow> v \<in> R)"

definition est_inv :: "Graph \<Rightarrow> est_state \<Rightarrow> bool" where
  "est_inv g es \<longleftrightarrow>
     length (est_last_seen es) = num_nodes g
     \<and> (\<forall>x\<in>set (est_last_seen es). unat x \<le> unat (est_token es))"

text \<open>
  Two rollouts in step: under their respective tokens the same nodes are marked, and the
  queue, the total and the generator are the same.
\<close>

definition same_marks :: "uint \<Rightarrow> uint list \<Rightarrow> uint \<Rightarrow> uint list \<Rightarrow> bool" where
  "same_marks tok1 ls1 tok2 ls2 \<longleftrightarrow>
     length ls1 = length ls2 \<and> (\<forall>i<length ls1. (ls1 ! i = tok1) = (ls2 ! i = tok2))"

definition sim_agree :: "uint \<Rightarrow> sim_state \<Rightarrow> uint \<Rightarrow> sim_state \<Rightarrow> bool" where
  "sim_agree tok1 st1 tok2 st2 \<longleftrightarrow>
     same_marks tok1 (sim_last_seen st1) tok2 (sim_last_seen st2)
     \<and> sim_q st1 = sim_q st2 \<and> sim_total_value st1 = sim_total_value st2
     \<and> sim_rng st1 = sim_rng st2"

text \<open>
  A node is eligible when its flag in \<^verbatim>\<open>has_value\<close> is set. \<open>only_eligible\<close> says that
  every node in the queue and in the seed set is eligible.
\<close>

definition eligible :: "Graph \<Rightarrow> nat \<Rightarrow> bool" where
  "eligible g u \<longleftrightarrow> u < length (has_value g) \<and> has_value g ! u"

definition only_eligible :: "Graph \<Rightarrow> celf_state \<Rightarrow> bool" where
  "only_eligible g st \<longleftrightarrow>
     (\<forall>e\<in>set (pq st). eligible g (node_id e)) \<and> (\<forall>u\<in>set (seeds st). eligible g u)"

text \<open>
  The external ids printed by the \<^verbatim>\<open>Selected Node\<close> lines, in the order of the lines.
  \<open>seeds_logged\<close> relates the seed set to them.
\<close>

fun selected_names :: "out_line list \<Rightarrow> string list" where
  "selected_names [] = []"
| "selected_names (SelectedNode name v gain reach # ls) = name # selected_names ls"
| "selected_names (l # ls) = selected_names ls"

definition seeds_logged :: "Graph \<Rightarrow> celf_state \<Rightarrow> bool" where
  "seeds_logged g st \<longleftrightarrow>
     sorted (seeds st) \<and> distinct (seeds st)
     \<and> mset (map (\<lambda>s. reverse_id_map g ! s) (seeds st)) = mset (selected_names (cout st))"

text \<open>
  The graphs the construction interface can build from the empty graph, each with the set
  \<open>V\<close> of external ids that \<^verbatim>\<open>set_node_value\<close> was called on: the nodes whose value
  was assigned explicitly. \<open>assigned g V u\<close> says that the internal id \<open>u\<close> names such a
  node.
\<close>

inductive constructed :: "Graph \<Rightarrow> string set \<Rightarrow> bool" where
  empty: "constructed empty_graph {}"
| intern: "constructed g V \<Longrightarrow> constructed (snd (get_internal_id g x)) V"
| edge: "constructed g V \<Longrightarrow> constructed (add_edge g s t p) V"
| assign: "constructed g V \<Longrightarrow> constructed (set_node_value g x v) (insert x V)"

definition assigned :: "Graph \<Rightarrow> string set \<Rightarrow> nat \<Rightarrow> bool" where
  "assigned g V u \<longleftrightarrow> u < num_nodes g \<and> reverse_id_map g ! u \<in> V"

text \<open>
  \<open>id_map\<close> and \<open>reverse_id_map\<close> are inverse to each other; \<open>graph_inv\<close> adds that the
  flags in \<^verbatim>\<open>has_value\<close> mark exactly the nodes with an assigned value.
\<close>

definition ids_consistent :: "Graph \<Rightarrow> bool" where
  "ids_consistent g \<longleftrightarrow>
     (\<forall>x i. id_map g x = Some i \<longleftrightarrow> i < num_nodes g \<and> reverse_id_map g ! i = x)"

definition graph_inv :: "Graph \<Rightarrow> string set \<Rightarrow> bool" where
  "graph_inv g V \<longleftrightarrow>
     wf_graph g \<and> ids_consistent g \<and> V \<subseteq> set (reverse_id_map g)
     \<and> (\<forall>i<num_nodes g. has_value g ! i \<longleftrightarrow> reverse_id_map g ! i \<in> V)"

text \<open>Every edge probability of the graph satisfies \<open>Q\<close>.\<close>

definition all_probabilities :: "(real \<Rightarrow> bool) \<Rightarrow> Graph \<Rightarrow> bool" where
  "all_probabilities Q g \<longleftrightarrow> (\<forall>es\<in>set (adj g). \<forall>e\<in>set es. Q (probability e))"

text \<open>
  The edges of a graph by the external ids of their end points, each with its probability,
  as a multiset; and the calls of \<^verbatim>\<open>add_edge\<close> that the third loop of the parser makes
  on a file content: one for every tag with a source and a target.
\<close>

definition graph_edges :: "Graph \<Rightarrow> (string \<times> string \<times> real) multiset" where
  "graph_edges g =
     mset (concat (map (\<lambda>u. map (\<lambda>e. (reverse_id_map g ! u, reverse_id_map g ! to e,
                                       probability e))
                                (adj g ! u))
                       [0..<length (adj g)]))"

definition edge_calls ::
  "(string \<Rightarrow> real option) \<Rightarrow> string \<Rightarrow> nat \<Rightarrow> (string \<times> string \<times> real) list" where
  "edge_calls stod content pos =
     map (\<lambda>(s, t, w). (s, t, weight_prob stod w))
         (filter (\<lambda>(s, t, w). s \<noteq> '''' \<and> t \<noteq> '''') (edge_tags content pos))"

subsection \<open>Worked examples\<close>

text \<open>Two isolated nodes with assigned values 1 and 2, and the driver's state on that graph
  after Phase 1 and after the first selection.\<close>

definition ex_values :: Graph where
  "ex_values = set_node_value (set_node_value empty_graph ''a'' 1) ''b'' 2"

definition ex_rng :: "nat \<Rightarrow> mt19937" where
  "ex_rng i = sconst 0"

definition ex_state0 :: celf_state where
  "ex_state0 = \<lparr>seeds = [], pq = [\<lparr>node_id = 0, marginal_gain = 1, iteration_computed = 0\<rparr>,
                                   \<lparr>node_id = 1, marginal_gain = 2, iteration_computed = 0\<rparr>],
                current_val = 0, found_best = False,
                cout = [InitializingCELF 2], cerr = [], rng_count = 0\<rparr>"

definition ex_state1 :: celf_state where
  "ex_state1 = \<lparr>seeds = [1], pq = [\<lparr>node_id = 0, marginal_gain = 1, iteration_computed = 0\<rparr>],
                current_val = 2, found_best = False,
                cout = [InitializingCELF 2, SelectedNode ''b'' 2 2 2], cerr = [],
                rng_count = 0\<rparr>"

text \<open>A node with an assigned value and an edge to a node that has none.\<close>

definition ex_mixed :: Graph where
  "ex_mixed = add_edge (set_node_value empty_graph ''a'' 1) ''a'' ''c'' 1"

text \<open>Two nodes of value 1, both with an assigned value, and one edge of probability 1/2.\<close>

definition ex_graph :: Graph where
  "ex_graph = add_edge (set_node_value (set_node_value empty_graph ''A'' 1) ''B'' 1)
                ''A'' ''B'' (1/2)"

text \<open>A single node whose value is the binary64 number nearest to 1/10.\<close>

definition ex_tenth :: Graph where
  "ex_tenth = set_node_value empty_graph ''a'' tenth"

text \<open>Three heap entries used as a worked example of the order.\<close>

definition ex_entry_a :: NodeGain where
  "ex_entry_a = \<lparr>node_id = 1, marginal_gain = 2, iteration_computed = 0\<rparr>"

definition ex_entry_b :: NodeGain where
  "ex_entry_b = \<lparr>node_id = 4, marginal_gain = 2, iteration_computed = 0\<rparr>"

definition ex_entry_c :: NodeGain where
  "ex_entry_c = \<lparr>node_id = 0, marginal_gain = 1, iteration_computed = 0\<rparr>"

text \<open>An input file: an attribute definition, two nodes with values 1 and 2, and an edge of
  weight 5 to a third node.\<close>

definition ex_content :: string where
  \<open>ex_content = ''<attribute id="0" title="w"/><node id="a"><attvalue for="0" value="1"/></node><node id="b"><attvalue for="0" value="2"/></node><edge source="a" target="c" weight="5"/>''\<close>

text \<open>
  The file system holding that file, the graph the parser builds from it (after the node
  loop and after the edge loop), an environment whose generators always draw 0, and the
  driver's final state on that graph for \<open>k = 2\<close> and \<open>k = 3\<close> with one Monte Carlo round.
\<close>

definition ex_fs :: "string \<Rightarrow> string option" where
  "ex_fs name = (if name = ''graph.gexf'' then Some ex_content else None)"

definition ex_nodes :: Graph where
  "ex_nodes = \<lparr>id_map = [''a'' \<mapsto> 0, ''b'' \<mapsto> 1],
                reverse_id_map = [''a'', ''b''],
                adj = [[], []],
                node_values = [1, 2],
                has_value = [True, True]\<rparr>"

definition ex_parsed :: Graph where
  "ex_parsed = \<lparr>id_map = [''a'' \<mapsto> 0, ''b'' \<mapsto> 1, ''c'' \<mapsto> 2],
                reverse_id_map = [''a'', ''b'', ''c''],
                adj = [[\<lparr>to = 2, probability = 5\<rparr>], [], []],
                node_values = [1, 2, 0],
                has_value = [True, True, False]\<rparr>"

definition ex_env :: environment where
  "ex_env = \<lparr>env_stoi = std_stoi, env_stod = std_stod, env_fs = ex_fs,
              env_rng1 = ex_rng, env_rng2 = ex_rng\<rparr>"

definition ex_final2 :: celf_state where
  "ex_final2 = \<lparr>seeds = [0, 1], pq = [], current_val = 3, found_best = True,
                cout = [InitializingCELF 3, SelectedNode ''b'' 2 2 2, SelectedNode ''a'' 1 1 3],
                cerr = [], rng_count = 1\<rparr>"

definition ex_final3 :: celf_state where
  "ex_final3 = \<lparr>seeds = [0, 1], pq = [], current_val = 3, found_best = False,
                cout = [InitializingCELF 3, SelectedNode ''b'' 2 2 2, SelectedNode ''a'' 1 1 3],
                cerr = [WarnQueueExhausted 3 2], rng_count = 1\<rparr>"

section \<open>Properties\<close>

subsection \<open>Rounding\<close>

lemma pow2_powr: "pow2 k = 2 powr of_int k"
  by (simp add: pow2_def powr_real_of_int field_simps)

lemma pow2_pos [simp]: "0 < pow2 k"
  by (simp add: pow2_def)

lemma pow2_nonneg [simp]: "0 \<le> pow2 k"
  by (simp add: pow2_def)

lemma pow2_not_le_zero [simp]: "\<not> pow2 k \<le> 0"
  using pow2_pos[of k] by linarith

lemma pow2_add: "pow2 (j + k) = pow2 j * pow2 k"
  by (simp add: pow2_powr powr_add)

lemma pow2_inverse [simp]: "pow2 (52 - e) * pow2 (e - 52) = 1"
  by (simp add: pow2_add[symmetric] pow2_def)

lemma round_even_of_int [simp]: "round_even (of_int n) = n"
  by (simp add: round_even_def)

lemma round_even_nonneg: "0 \<le> y \<Longrightarrow> 0 \<le> round_even y"
  by (auto simp: round_even_def Let_def)

lemma round_even_upper: "of_int (round_even y) \<le> y + 1/2"
  unfolding round_even_def Let_def by (auto; linarith)

lemma rnd_zero [simp]: "rnd 0 = 0"
  by (simp add: rnd_def)

lemma rnd_nonneg: "0 \<le> x \<Longrightarrow> 0 \<le> rnd x"
  by (auto simp: rnd_def Let_def intro!: mult_nonneg_nonneg round_even_nonneg)

text \<open>Rounding a nonnegative number enlarges it by at most the unit roundoff.\<close>

lemma rnd_upper:
  assumes "0 \<le> x"
  shows "rnd x \<le> x * (1 + unit_roundoff)"
proof (cases "x = 0")
  case True
  then show ?thesis by simp
next
  case False
  with assms have pos: "0 < x" by simp
  define e where "e = \<lfloor>log 2 \<bar>x\<bar>\<rfloor>"
  have "of_int e \<le> log 2 x" using pos by (simp add: e_def)
  then have le: "pow2 e \<le> x" using pos by (simp add: le_log_iff pow2_powr)
  have half: "pow2 (e - 52) / 2 = pow2 e * unit_roundoff"
    using pow2_add[of e "-53"] pow2_add[of "e - 52" "-1"] by (simp add: pow2_def unit_roundoff_def)
  have "rnd x = of_int (round_even (x * pow2 (52 - e))) * pow2 (e - 52)"
    using False by (simp add: rnd_def e_def Let_def)
  also have "\<dots> \<le> (x * pow2 (52 - e) + 1/2) * pow2 (e - 52)"
    by (intro mult_right_mono round_even_upper) simp
  also have "\<dots> = x * (pow2 (52 - e) * pow2 (e - 52)) + pow2 (e - 52) / 2"
    by (simp only: distrib_right mult.assoc)
  also have "\<dots> = x + pow2 e * unit_roundoff"
    by (simp only: pow2_inverse half mult_1_right)
  also have "\<dots> \<le> x + x * unit_roundoff"
    using le by (intro add_left_mono mult_right_mono) (simp_all add: unit_roundoff_def)
  finally show ?thesis by (simp add: algebra_simps)
qed

lemma floor_log2_eq:
  assumes "pow2 k \<le> \<bar>x\<bar>" "\<bar>x\<bar> < pow2 (k + 1)"
  shows "\<lfloor>log 2 \<bar>x\<bar>\<rfloor> = k"
proof -
  from assms(1) have pos: "0 < \<bar>x\<bar>" using pow2_pos[of k] by linarith
  from assms(1) pos have "of_int k \<le> log 2 \<bar>x\<bar>" by (simp add: le_log_iff pow2_powr)
  moreover from assms(2) pos have "log 2 \<bar>x\<bar> < of_int (k + 1)"
    by (simp add: log_less_iff pow2_powr)
  ultimately show ?thesis by (simp add: floor_eq_iff)
qed

text \<open>The value of \<open>rnd\<close> at a number whose binade is known.\<close>

lemma rnd_at:
  assumes "pow2 k \<le> \<bar>x\<bar>" "\<bar>x\<bar> < pow2 (k + 1)"
    and "round_even (x * pow2 (52 - k)) = m"
  shows "rnd x = of_int m * pow2 (k - 52)"
proof -
  from assms(1) have "x \<noteq> 0" using pow2_pos[of k] by auto
  with floor_log2_eq[OF assms(1,2)] assms(3) show ?thesis by (simp add: rnd_def Let_def)
qed

text \<open>Integers below \<open>2^53\<close> are binary64 values.\<close>

lemma rnd_of_int:
  assumes "\<bar>n\<bar> < 2 ^ 53"
  shows "rnd (of_int n) = of_int n"
proof (cases "n = 0")
  case True
  then show ?thesis by simp
next
  case False
  define e where "e = \<lfloor>log 2 \<bar>real_of_int n\<bar>\<rfloor>"
  have "real_of_int \<bar>n\<bar> < 2 ^ 53" using assms by (metis of_int_less_numeral_power_cancel_iff)
  then have lt: "\<bar>real_of_int n\<bar> < 2 powr 53" by simp
  have pos: "0 < \<bar>real_of_int n\<bar>" using False by simp
  have "log 2 \<bar>real_of_int n\<bar> < 53" using lt pos by (simp add: log_less_iff)
  then have "e < 53" by (simp add: e_def floor_less_iff)
  then have k: "0 \<le> 52 - e" by simp
  have "pow2 (52 - e) = of_int (2 ^ nat (52 - e))"
    using k by (simp add: pow2_def)
  then have "real_of_int n * pow2 (52 - e) = of_int (n * 2 ^ nat (52 - e))"
    by simp
  then have "round_even (real_of_int n * pow2 (52 - e)) = n * 2 ^ nat (52 - e)"
    by (simp only: round_even_of_int)
  then have "rnd (of_int n) = of_int (n * 2 ^ nat (52 - e)) * pow2 (e - 52)"
    using False by (simp add: rnd_def Let_def e_def)
  also have "\<dots> = of_int n * (pow2 (52 - e) * pow2 (e - 52))"
    using k by (simp add: pow2_def)
  finally show ?thesis by (simp only: pow2_inverse)
qed

lemma rnd_numeral: "numeral k < (2::int) ^ 53 \<Longrightarrow> rnd (numeral k) = numeral k"
  using rnd_of_int[of "numeral k"] by simp

lemma rnd_one [simp]: "rnd 1 = 1"
  using rnd_of_int[of 1] by simp

text \<open>The small integers of the worked examples.\<close>

lemma rnd_small [simp]:
  "rnd 2 = 2" "rnd 3 = 3" "rnd 5 = 5" "rnd 6 = 6" "rnd 8 = 8"
  by (simp_all add: rnd_numeral)

lemma rnd_tenth: "rnd (1/10) = tenth" "rnd tenth = tenth"
  using rnd_at[of "-4" "1/10" 7205759403792794] rnd_at[of "-4" tenth 7205759403792794]
  by (simp_all add: pow2_def round_even_def tenth_def)

lemmas darith = dadd_def dsub_def ddiv_def

text \<open>One rounded addition in a running sum of nonnegative terms.\<close>

lemma one_le_roundoff_power: "1 \<le> (1 + unit_roundoff) ^ c"
  by (rule one_le_power) (simp add: unit_roundoff_def)

lemma dadd_bound:
  assumes "0 \<le> T" "T \<le> S * (1 + unit_roundoff) ^ c" "0 \<le> x"
  shows "0 \<le> dadd T x \<and> dadd T x \<le> (S + x) * (1 + unit_roundoff) ^ Suc c"
proof -
  let ?p = "1 + unit_roundoff"
  have p: "0 \<le> ?p" by (simp add: unit_roundoff_def)
  have "x * 1 \<le> x * ?p ^ c"
    using assms(3) one_le_roundoff_power[of c] by (intro mult_left_mono)
  with assms(2) have "T + x \<le> (S + x) * ?p ^ c" by (simp add: algebra_simps)
  then have "(T + x) * ?p \<le> (S + x) * ?p ^ c * ?p"
    using p by (intro mult_right_mono)
  moreover from assms(1,3) have "rnd (T + x) \<le> (T + x) * ?p" by (intro rnd_upper) simp
  moreover from assms(1,3) have "0 \<le> rnd (T + x)" by (intro rnd_nonneg) simp
  ultimately show ?thesis by (simp add: dadd_def mult_ac)
qed

subsection \<open>The heap order\<close>

lemma NodeGain_less_trans:
  "NodeGain_less a b \<Longrightarrow> NodeGain_less b c \<Longrightarrow> NodeGain_less a c"
  by (auto simp: NodeGain_less_def split: if_splits)

lemma NodeGain_less_neg_trans:
  "\<not> NodeGain_less a b \<Longrightarrow> \<not> NodeGain_less b c \<Longrightarrow> \<not> NodeGain_less a c"
  by (auto simp: NodeGain_less_def split: if_splits)

lemma pq_max_greatest:
  "\<not> NodeGain_less (pq_max m es) m \<and> (\<forall>e\<in>set es. \<not> NodeGain_less (pq_max m es) e)"
proof (induction es arbitrary: m)
  case Nil
  show ?case by (simp add: NodeGain_less_def)
next
  case (Cons e es)
  let ?m' = "if NodeGain_less m e then e else m"
  let ?r = "pq_max ?m' es"
  from Cons.IH[of ?m'] have top: "\<not> NodeGain_less ?r ?m'"
    and rest: "\<forall>x\<in>set es. \<not> NodeGain_less ?r x" by auto
  have "\<not> NodeGain_less ?r m \<and> \<not> NodeGain_less ?r e"
  proof (cases "NodeGain_less m e")
    case True
    with top have "\<not> NodeGain_less ?r e" by simp
    moreover from this True have "\<not> NodeGain_less ?r m"
      using NodeGain_less_trans by blast
    ultimately show ?thesis by simp
  next
    case False
    with top have "\<not> NodeGain_less ?r m" by simp
    moreover from this False have "\<not> NodeGain_less ?r e"
      using NodeGain_less_neg_trans by blast
    ultimately show ?thesis by simp
  qed
  with rest show ?case by simp
qed

lemma pq_top_greatest: "e \<in> set q \<Longrightarrow> \<not> NodeGain_less (pq_top q) e"
  using pq_max_greatest by (cases q) auto

text \<open>
  Claim C7. The heap order is by larger \<open>marginal_gain\<close> first and, among entries of
  equal \<open>marginal_gain\<close>, by smaller \<open>node_id\<close> first: in both situations the
  preferred entry \<open>a\<close> compares greater under \<^verbatim>\<open>operator<\<close>, and whenever both
  entries are in the queue the other entry \<open>b\<close> is not the one \<open>top()\<close> returns, so
  \<open>a\<close> leaves the queue before \<open>b\<close>.
\<close>

theorem heap_order_gain_then_smaller_id:
  assumes "marginal_gain b < marginal_gain a
           \<or> (marginal_gain a = marginal_gain b \<and> node_id a < node_id b)"
  shows "NodeGain_less b a \<and> \<not> NodeGain_less a b
         \<and> (a \<in> set q \<and> b \<in> set q \<longrightarrow> pq_top q \<noteq> b \<and> pq_top q \<in> set q)"
proof -
  from assms have lt: "NodeGain_less b a" and nlt: "\<not> NodeGain_less a b"
    by (auto simp: NodeGain_less_def)
  have "pq_top q \<noteq> b \<and> pq_top q \<in> set q" if "a \<in> set q" "b \<in> set q"
  proof -
    from that(1) have "\<not> NodeGain_less (pq_top q) a" by (rule pq_top_greatest)
    with lt have "pq_top q \<noteq> b" by auto
    moreover from that(1) have "pq_top q \<in> set q" by (intro pq_top_mem) auto
    ultimately show ?thesis by simp
  qed
  with lt nlt show ?thesis by blast
qed


theorem heap_order_gain_then_smaller_id_witness:
  "marginal_gain ex_entry_a = marginal_gain ex_entry_b
   \<and> node_id ex_entry_a < node_id ex_entry_b
   \<and> NodeGain_less ex_entry_b ex_entry_a \<and> \<not> NodeGain_less ex_entry_a ex_entry_b
   \<and> ex_entry_a \<in> set [ex_entry_c, ex_entry_b, ex_entry_a]
   \<and> ex_entry_b \<in> set [ex_entry_c, ex_entry_b, ex_entry_a]
   \<and> pq_top [ex_entry_c, ex_entry_b, ex_entry_a] \<noteq> ex_entry_b
   \<and> pq_top [ex_entry_c, ex_entry_b, ex_entry_a] \<in> set [ex_entry_c, ex_entry_b, ex_entry_a]"
proof -
  have eq: "marginal_gain ex_entry_a = marginal_gain ex_entry_b
            \<and> node_id ex_entry_a < node_id ex_entry_b"
    by (simp add: ex_entry_a_def ex_entry_b_def)
  then have h: "marginal_gain ex_entry_b < marginal_gain ex_entry_a
           \<or> (marginal_gain ex_entry_a = marginal_gain ex_entry_b
               \<and> node_id ex_entry_a < node_id ex_entry_b)"
    by simp
  have mem: "ex_entry_a \<in> set [ex_entry_c, ex_entry_b, ex_entry_a]
             \<and> ex_entry_b \<in> set [ex_entry_c, ex_entry_b, ex_entry_a]"
    by simp
  from heap_order_gain_then_smaller_id[OF h, of "[ex_entry_c, ex_entry_b, ex_entry_a]"] mem eq
  show ?thesis by blast
qed


text \<open>The older variant at the repository root has no tie-break: entries of equal gain
  are not ordered by its operator, whatever their node ids.\<close>

lemma root_operator_leaves_ties_unordered:
  assumes "marginal_gain a = marginal_gain b"
  shows "\<not> NodeGain_less_root a b \<and> \<not> NodeGain_less_root b a"
  using assms by (simp add: NodeGain_less_root_def)

subsection \<open>The simulator and the estimator keep their invariants\<close>

lemma finite_active [simp]: "finite (active tok ls)"
  by (simp add: active_def)

lemma active_update:
  "v < length ls \<Longrightarrow> active tok (ls[v := tok]) = insert v (active tok ls)"
  by (auto simp: active_def nth_list_update)

lemma sim_inv_activate:
  assumes inv: "sim_inv g tok R st" and v: "v < num_nodes g" "v \<in> R"
    and fresh: "sim_last_seen st ! v \<noteq> tok"
    and lv: "length (node_values g) = num_nodes g"
  shows "sim_inv g tok R
           (st\<lparr>sim_last_seen := (sim_last_seen st)[v := tok],
               sim_total_value := dadd (sim_total_value st) (node_values g ! v),
               sim_q := sim_q st @ [v]\<rparr>)"
proof -
  let ?A = "active tok (sim_last_seen st)"
  from inv have len: "length (sim_last_seen st) = num_nodes g" by (simp add: sim_inv_def)
  with v have act: "active tok ((sim_last_seen st)[v := tok]) = insert v ?A"
    by (simp add: active_update)
  from fresh have notin: "v \<notin> ?A" by (simp add: active_def)
  have bound: "0 \<le> dadd (sim_total_value st) (node_values g ! v)
        \<and> dadd (sim_total_value st) (node_values g ! v)
            \<le> (\<Sum>i\<in>insert v ?A. node_values g ! i) * (1 + unit_roundoff) ^ card (insert v ?A)"
    if nonneg: "\<forall>x\<in>set (node_values g). 0 \<le> x"
  proof -
    from nonneg v(1) lv have x: "0 \<le> node_values g ! v" by simp
    from inv nonneg have t: "0 \<le> sim_total_value st"
      "sim_total_value st \<le> (\<Sum>i\<in>?A. node_values g ! i) * (1 + unit_roundoff) ^ card ?A"
      by (auto simp: sim_inv_def)
    from dadd_bound[OF t x] notin show ?thesis by (simp add: add.commute)
  qed
  from inv v have "set (sim_q st) \<subseteq> insert v ?A" "insert v ?A \<subseteq> R"
    by (auto simp: sim_inv_def)
  with len bound show ?thesis
    unfolding sim_inv_def by (simp add: act)
qed

lemma sim_inv_rng: "sim_inv g tok R (st\<lparr>sim_rng := r\<rparr>) = sim_inv g tok R st"
  by (simp add: sim_inv_def)

lemma sim_inv_q_tl:
  "sim_inv g tok R st \<Longrightarrow> sim_q st = u # rest \<Longrightarrow> sim_inv g tok R (st\<lparr>sim_q := rest\<rparr>)"
  by (auto simp: sim_inv_def)

lemma mark_seeds_inv:
  assumes "wf_graph g" "sim_inv g tok R st" "\<forall>s\<in>set ss. s < num_nodes g \<and> s \<in> R"
  shows "\<exists>st'. mark_seeds g tok ss st = Some st' \<and> sim_inv g tok R st'
               \<and> sim_rng st' = sim_rng st
               \<and> set (sim_last_seen st') \<subseteq> insert tok (set (sim_last_seen st))"
  using assms(2,3)
proof (induction ss arbitrary: st)
  case Nil then show ?case by auto
next
  case (Cons s ss)
  from Cons.prems have len: "length (sim_last_seen st) = num_nodes g"
    by (simp add: sim_inv_def)
  from assms(1) have lv: "length (node_values g) = num_nodes g" by (simp add: wf_graph_def)
  from Cons.prems have s: "s < num_nodes g" "s \<in> R" by auto
  show ?case
  proof (cases "sim_last_seen st ! s \<noteq> tok")
    case True
    let ?st2 = "st\<lparr>sim_last_seen := (sim_last_seen st)[s := tok],
                   sim_q := sim_q st @ [s],
                   sim_total_value := dadd (sim_total_value st) (node_values g ! s)\<rparr>"
    have "sim_inv g tok R ?st2"
      using sim_inv_activate[OF Cons.prems(1) s True lv] by (simp add: sim_inv_def)
    from Cons.IH[OF this] Cons.prems(2) obtain st' where
      st': "mark_seeds g tok ss ?st2 = Some st'" "sim_inv g tok R st'"
           "sim_rng st' = sim_rng ?st2"
           "set (sim_last_seen st') \<subseteq> insert tok (set (sim_last_seen ?st2))"
      by auto
    have "set ((sim_last_seen st)[s := tok]) \<subseteq> insert tok (set (sim_last_seen st))"
      by (rule set_update_subset_insert)
    with st' True s len lv show ?thesis by auto
  next
    case False
    with Cons.IH[OF Cons.prems(1)] Cons.prems(2) s len show ?thesis by auto
  qed
qed

lemma visit_edges_inv:
  assumes "wf_graph g" "sim_inv g tok R st" "\<forall>e\<in>set es. to e < num_nodes g \<and> to e \<in> R"
  shows "\<exists>st'. visit_edges g tok es st = Some st' \<and> sim_inv g tok R st'
               \<and> set (sim_last_seen st') \<subseteq> insert tok (set (sim_last_seen st))"
  using assms(2,3)
proof (induction es arbitrary: st)
  case Nil then show ?case by auto
next
  case (Cons e es)
  from Cons.prems have len: "length (sim_last_seen st) = num_nodes g"
    by (simp add: sim_inv_def)
  from assms(1) have lv: "length (node_values g) = num_nodes g" by (simp add: wf_graph_def)
  from Cons.prems have v: "to e < num_nodes g" "to e \<in> R" by auto
  let ?st1 = "st\<lparr>sim_rng := stl (sim_rng st)\<rparr>"
  have inv1: "sim_inv g tok R ?st1" using Cons.prems(1) by (simp add: sim_inv_rng)
  show ?case
  proof (cases "sim_last_seen st ! to e \<noteq> tok")
    case True
    note fresh = this
    show ?thesis
    proof (cases "shd (sim_rng st) \<le> probability e")
      case True
      let ?st2 = "?st1\<lparr>sim_last_seen := (sim_last_seen ?st1)[to e := tok],
                       sim_total_value := dadd (sim_total_value ?st1) (node_values g ! to e),
                       sim_q := sim_q ?st1 @ [to e]\<rparr>"
      have "sim_inv g tok R ?st2"
        using sim_inv_activate[OF inv1 v _ lv] fresh by simp
      from Cons.IH[OF this] Cons.prems(2) obtain st' where
        st': "visit_edges g tok es ?st2 = Some st'" "sim_inv g tok R st'"
             "set (sim_last_seen st') \<subseteq> insert tok (set (sim_last_seen ?st2))"
        by auto
      have "set ((sim_last_seen st)[to e := tok]) \<subseteq> insert tok (set (sim_last_seen st))"
        by (rule set_update_subset_insert)
      with st' True fresh v len lv show ?thesis by (auto simp: Let_def)
    next
      case False
      from Cons.IH[OF inv1] Cons.prems(2) obtain st' where
        "visit_edges g tok es ?st1 = Some st'" "sim_inv g tok R st'"
        "set (sim_last_seen st') \<subseteq> insert tok (set (sim_last_seen ?st1))"
        by auto
      with False fresh v len show ?thesis by (auto simp: Let_def)
    qed
  next
    case False
    with Cons.IH[OF Cons.prems(1)] Cons.prems(2) v len show ?thesis by (auto simp: Let_def)
  qed
qed

lemma bfs_inv:
  "wf_graph g \<Longrightarrow> closed_under g R \<Longrightarrow> R \<subseteq> {..<num_nodes g} \<Longrightarrow> sim_inv g tok R st \<Longrightarrow>
   \<exists>st'. bfs g tok st = Some st' \<and> sim_inv g tok R st'
         \<and> set (sim_last_seen st') \<subseteq> insert tok (set (sim_last_seen st))"
proof (induction g tok st rule: bfs.induct)
  case (1 g tok st)
  note wf = "1.prems"(1) and cl = "1.prems"(2) and bd = "1.prems"(3) and inv = "1.prems"(4)
  show ?case
  proof (cases "sim_q st")
    case Nil
    with inv show ?thesis by (auto simp: bfs.simps)
  next
    case (Cons u rest)
    from inv Cons have uA: "u \<in> active tok (sim_last_seen st)"
      by (auto simp: sim_inv_def)
    with inv have uR: "u \<in> R" by (auto simp: sim_inv_def)
    from uA inv have un: "u < num_nodes g" by (simp add: active_def sim_inv_def)
    with wf have ul: "u < length (adj g)" by (simp add: wf_graph_def)
    have edges: "\<forall>e\<in>set (adj g ! u). to e < num_nodes g \<and> to e \<in> R"
    proof
      fix e assume e: "e \<in> set (adj g ! u)"
      with ul have "(u, to e) \<in> edge_rel g" by (auto simp: edge_rel_def)
      with cl uR have "to e \<in> R" by (auto simp: closed_under_def)
      with bd show "to e < num_nodes g \<and> to e \<in> R" by auto
    qed
    from visit_edges_inv[OF wf sim_inv_q_tl[OF inv Cons] edges]
    obtain st1 where st1: "visit_edges g tok (adj g ! u) (st\<lparr>sim_q := rest\<rparr>) = Some st1"
      "sim_inv g tok R st1"
      "set (sim_last_seen st1) \<subseteq> insert tok (set (sim_last_seen st))"
      by auto
    from "1.IH"[OF Cons ul st1(1) wf cl bd st1(2)] obtain st' where
      st': "bfs g tok st1 = Some st'" "sim_inv g tok R st'"
           "set (sim_last_seen st') \<subseteq> insert tok (set (sim_last_seen st1))"
      by auto
    from st1 st' Cons ul have "bfs g tok st = Some st'"
      by (subst bfs.simps) simp
    with st' st1(3) show ?thesis by auto
  qed
qed

lemma reachable_closed: "closed_under g (reachable g S)"
  by (auto simp: closed_under_def reachable_def intro: rtrancl_into_rtrancl)

lemma reachable_seeds: "S \<subseteq> reachable g S"
  by (auto simp: reachable_def)

lemma reachable_bounded:
  assumes "wf_graph g" "S \<subseteq> {..<num_nodes g}"
  shows "reachable g S \<subseteq> {..<num_nodes g}"
proof
  fix v assume "v \<in> reachable g S"
  then obtain s where s: "s \<in> S" "(s, v) \<in> (edge_rel g)\<^sup>*" by (auto simp: reachable_def)
  from s(2) show "v \<in> {..<num_nodes g}"
  proof (induction rule: rtrancl_induct)
    case base
    with s(1) assms(2) show ?case by auto
  next
    case (step y z)
    then have "y < length (adj g)" "z \<in> to ` set (adj g ! y)" by (auto simp: edge_rel_def)
    with assms(1) show ?case by (auto simp: wf_graph_def)
  qed
qed

lemma active_fresh: "fresh_token tok ls \<Longrightarrow> active tok ls = {}"
  by (auto simp: fresh_token_def active_def)

text \<open>
  A rollout returns; its total is nonnegative and exceeds the exact sum of the values of
  the reachable nodes by at most one rounding per node.
\<close>

lemma run_total_bounds:
  assumes wf: "wf_graph g" and seeds: "\<forall>s\<in>set seed_list. s < num_nodes g"
    and len: "length ls = num_nodes g" and fresh: "fresh_token tok ls"
  shows "\<exists>st. run_weighted_simulation_token g seed_list rng ls tok = Some st
              \<and> ((\<forall>v\<in>set (node_values g). 0 \<le> v) \<longrightarrow>
                    0 \<le> sim_total_value st
                    \<and> sim_total_value st
                        \<le> spread_bound g seed_list * (1 + unit_roundoff) ^ num_nodes g)
              \<and> length (sim_last_seen st) = num_nodes g
              \<and> set (sim_last_seen st) \<subseteq> insert tok (set ls)"
proof -
  let ?R = "reachable g (set seed_list)"
  let ?p = "1 + unit_roundoff"
  let ?st0 = "\<lparr>sim_last_seen = ls, sim_q = [], sim_total_value = 0, sim_rng = rng\<rparr>"
  from seeds have sub: "set seed_list \<subseteq> {..<num_nodes g}" by auto
  have bd: "?R \<subseteq> {..<num_nodes g}" by (rule reachable_bounded[OF wf sub])
  have inv0: "sim_inv g tok ?R ?st0"
    using len fresh by (simp add: sim_inv_def active_fresh)
  have "\<forall>s\<in>set seed_list. s < num_nodes g \<and> s \<in> ?R"
    using seeds reachable_seeds[of "set seed_list" g] by auto
  from mark_seeds_inv[OF wf inv0 this] obtain st1 where
    st1: "mark_seeds g tok seed_list ?st0 = Some st1" "sim_inv g tok ?R st1"
         "set (sim_last_seen st1) \<subseteq> insert tok (set ls)"
    by auto
  from bfs_inv[OF wf reachable_closed bd st1(2)] obtain st where
    st: "bfs g tok st1 = Some st" "sim_inv g tok ?R st"
        "set (sim_last_seen st) \<subseteq> insert tok (set (sim_last_seen st1))"
    by auto
  let ?A = "active tok (sim_last_seen st)"
  from st(2) have sub: "?A \<subseteq> ?R" and len': "length (sim_last_seen st) = num_nodes g"
    by (auto simp: sim_inv_def)
  from wf have lv: "length (node_values g) = num_nodes g" by (simp add: wf_graph_def)
  have fin: "finite ?R" using bd finite_subset by blast
  have bounds: "0 \<le> sim_total_value st
                \<and> sim_total_value st \<le> spread_bound g seed_list * ?p ^ num_nodes g"
    if nonneg: "\<forall>v\<in>set (node_values g). 0 \<le> v"
  proof -
    from st(2) nonneg have tot: "0 \<le> sim_total_value st"
      "sim_total_value st \<le> (\<Sum>i\<in>?A. node_values g ! i) * ?p ^ card ?A"
      by (auto simp: sim_inv_def)
    have pos: "0 \<le> node_values g ! i" if "i \<in> ?R" for i
      using that bd nonneg lv by (auto simp: all_set_conv_all_nth)
    have s0: "0 \<le> (\<Sum>i\<in>?R. node_values g ! i)"
      using pos by (intro sum_nonneg) auto
    have s1: "(\<Sum>i\<in>?A. node_values g ! i) \<le> (\<Sum>i\<in>?R. node_values g ! i)"
      using fin sub pos by (intro sum_mono2) auto
    have "card ?A \<le> card ?R" using fin sub by (rule card_mono)
    also have "card ?R \<le> card {..<num_nodes g}" using bd by (intro card_mono) auto
    finally have c: "card ?A \<le> num_nodes g" by simp
    have "?p ^ card ?A \<le> ?p ^ num_nodes g"
      using c by (intro power_increasing) (simp_all add: unit_roundoff_def)
    with s0 s1 have "(\<Sum>i\<in>?A. node_values g ! i) * ?p ^ card ?A
                     \<le> (\<Sum>i\<in>?R. node_values g ! i) * ?p ^ num_nodes g"
      by (intro mult_mono) (simp_all add: unit_roundoff_def)
    with tot show ?thesis by (simp add: spread_bound_def)
  qed
  have "run_weighted_simulation_token g seed_list rng ls tok = Some st"
    using st1(1) st(1) by (simp add: run_weighted_simulation_token_def)
  with bounds len' st(3) st1(3) show ?thesis by auto
qed

lemma next_token_fresh:
  fixes token :: uint
  assumes "\<forall>x\<in>set ls. unat x \<le> unat token" "token + 1 \<noteq> 0"
  shows "fresh_token (token + 1) ls \<and> (\<forall>x\<in>insert (token + 1) (set ls). unat x \<le> unat (token + 1))"
proof -
  from assms(2) have "unat (token + 1) = Suc (unat token)"
    using unatSuc[of token] by (simp add: add.commute)
  with assms(1) show ?thesis by (fastforce simp: fresh_token_def)
qed

lemma wrapped_token_fresh:
  "fresh_token (1::uint) (replicate n 0)
   \<and> (\<forall>x\<in>insert (1::uint) (set (replicate n 0)). unat x \<le> unat (1::uint))"
  by (auto simp: fresh_token_def)

text \<open>The token and the activation vector of the next round.\<close>

lemma est_inv_next:
  assumes "est_inv g es"
  defines "tok \<equiv> (if est_token es + 1 = 0 then 1 else est_token es + 1)"
    and "ls \<equiv> (if est_token es + 1 = 0 then replicate (length (est_last_seen es)) 0
                else est_last_seen es)"
  shows "length ls = num_nodes g" "fresh_token tok ls"
    "\<forall>x\<in>insert tok (set ls). unat x \<le> unat tok"
proof -
  from assms(1) show "length ls = num_nodes g" by (simp add: est_inv_def ls_def)
  have "fresh_token tok ls \<and> (\<forall>x\<in>insert tok (set ls). unat x \<le> unat tok)"
  proof (cases "est_token es + 1 = 0")
    case True
    then show ?thesis using wrapped_token_fresh by (simp add: tok_def ls_def)
  next
    case False
    with assms(1) next_token_fresh[of "est_last_seen es" "est_token es"]
    show ?thesis by (simp add: est_inv_def tok_def ls_def)
  qed
  then show "fresh_token tok ls" "\<forall>x\<in>insert tok (set ls). unat x \<le> unat tok" by auto
qed

lemma estimate_rounds_bounds:
  assumes wf: "wf_graph g" and seeds: "\<forall>s\<in>set seed_list. s < num_nodes g"
  shows "est_inv g es \<Longrightarrow>
         \<exists>es'. estimate_rounds g seed_list i es = Some es'
               \<and> ((\<forall>v\<in>set (node_values g). 0 \<le> v) \<longrightarrow>
                     0 \<le> est_total_spread es
                     \<and> est_total_spread es
                         \<le> real j * (spread_bound g seed_list * (1 + unit_roundoff) ^ num_nodes g)
                             * (1 + unit_roundoff) ^ j \<longrightarrow>
                     0 \<le> est_total_spread es'
                     \<and> est_total_spread es'
                         \<le> real (j + i)
                             * (spread_bound g seed_list * (1 + unit_roundoff) ^ num_nodes g)
                             * (1 + unit_roundoff) ^ (j + i))"
proof (induction i arbitrary: es j)
  case 0
  then show ?case by simp
next
  case (Suc i)
  let ?p = "1 + unit_roundoff"
  let ?R = "spread_bound g seed_list * ?p ^ num_nodes g"
  let ?t1 = "est_token es + 1"
  let ?tok = "if ?t1 = 0 then 1 else ?t1"
  let ?ls = "if ?t1 = 0 then replicate (length (est_last_seen es)) 0 else est_last_seen es"
  note nx = est_inv_next[OF Suc.prems]
  from run_total_bounds[OF wf seeds nx(1,2), of "est_rng es"]
  obtain st where st: "run_weighted_simulation_token g seed_list (est_rng es) ?ls ?tok = Some st"
    "(\<forall>v\<in>set (node_values g). 0 \<le> v) \<longrightarrow>
       0 \<le> sim_total_value st \<and> sim_total_value st \<le> ?R"
    "length (sim_last_seen st) = num_nodes g"
    "set (sim_last_seen st) \<subseteq> insert ?tok (set ?ls)"
    by blast
  let ?es1 = "\<lparr>est_total_spread = dadd (est_total_spread es) (sim_total_value st),
               est_last_seen = sim_last_seen st, est_token = ?tok, est_rng = sim_rng st\<rparr>"
  have "est_inv g ?es1"
    using st(3,4) nx(3) by (auto simp: est_inv_def)
  from Suc.IH[OF this, of "Suc j"] obtain es' where
    es': "estimate_rounds g seed_list i ?es1 = Some es'"
         "(\<forall>v\<in>set (node_values g). 0 \<le> v) \<longrightarrow>
            0 \<le> est_total_spread ?es1
            \<and> est_total_spread ?es1 \<le> real (Suc j) * ?R * ?p ^ Suc j \<longrightarrow>
            0 \<le> est_total_spread es'
            \<and> est_total_spread es' \<le> real (Suc j + i) * ?R * ?p ^ (Suc j + i)"
    by blast
  have run: "estimate_rounds g seed_list (Suc i) es = Some es'"
    using st(1) es'(1) by (simp add: Let_def)
  have "0 \<le> est_total_spread es'
        \<and> est_total_spread es' \<le> real (j + Suc i) * ?R * ?p ^ (j + Suc i)"
    if nonneg: "\<forall>v\<in>set (node_values g). 0 \<le> v"
      and start: "0 \<le> est_total_spread es \<and> est_total_spread es \<le> real j * ?R * ?p ^ j"
  proof -
    from st(2) nonneg have a: "0 \<le> sim_total_value st" "sim_total_value st \<le> ?R" by auto
    from start have s: "0 \<le> est_total_spread es"
      "est_total_spread es \<le> (real j * ?R) * ?p ^ j" by auto
    from dadd_bound[OF s a(1)]
    have d: "0 \<le> est_total_spread ?es1"
      "est_total_spread ?es1 \<le> (real j * ?R + sim_total_value st) * ?p ^ Suc j" by auto
    have "(real j * ?R + sim_total_value st) * ?p ^ Suc j \<le> (real j * ?R + ?R) * ?p ^ Suc j"
      using a(2) by (intro mult_right_mono add_left_mono) (simp_all add: unit_roundoff_def)
    also have "\<dots> = real (Suc j) * ?R * ?p ^ Suc j" by (simp add: algebra_simps)
    finally have "est_total_spread ?es1 \<le> real (Suc j) * ?R * ?p ^ Suc j" using d(2) by simp
    with es'(2) nonneg d(1) show ?thesis by simp
  qed
  with run show ?case by blast
qed

lemma estimate_bounds:
  assumes wf: "wf_graph g" and seeds: "\<forall>s\<in>set seed_list. s < num_nodes g"
  shows "\<exists>r rng'. estimate_weighted_spread g seed_list mc_rounds rng = Some (r, rng')
                  \<and> ((\<forall>v\<in>set (node_values g). 0 \<le> v) \<and> 1 \<le> mc_rounds \<longrightarrow>
                        0 \<le> r
                        \<and> r \<le> spread_bound g seed_list
                               * (1 + unit_roundoff) ^ (num_nodes g + nat mc_rounds + 1))"
proof -
  let ?p = "1 + unit_roundoff"
  let ?R = "spread_bound g seed_list * ?p ^ num_nodes g"
  let ?n = "nat mc_rounds"
  let ?es0 = "\<lparr>est_total_spread = 0, est_last_seen = replicate (num_nodes g) 0,
               est_token = 1, est_rng = rng\<rparr>"
  have "est_inv g ?es0" by (simp add: est_inv_def)
  from estimate_rounds_bounds[OF wf seeds this, of ?n 0]
  obtain es' where es': "estimate_rounds g seed_list ?n ?es0 = Some es'"
    "(\<forall>v\<in>set (node_values g). 0 \<le> v) \<longrightarrow> 0 \<le> est_total_spread es'
      \<and> est_total_spread es' \<le> real ?n * ?R * ?p ^ ?n"
    by auto
  have "0 \<le> ddiv (est_total_spread es') (real_of_int mc_rounds)
        \<and> ddiv (est_total_spread es') (real_of_int mc_rounds)
            \<le> spread_bound g seed_list * ?p ^ (num_nodes g + ?n + 1)"
    if nonneg: "\<forall>v\<in>set (node_values g). 0 \<le> v" and mc: "1 \<le> mc_rounds"
  proof -
    from mc have pos: "0 < real_of_int mc_rounds"
      and eq: "real ?n = real_of_int mc_rounds" by simp_all
    from es'(2) nonneg have a: "0 \<le> est_total_spread es'"
      "est_total_spread es' \<le> real ?n * ?R * ?p ^ ?n" by auto
    from a(1) pos have q0: "0 \<le> est_total_spread es' / real_of_int mc_rounds" by simp
    from a(2) pos eq
    have q1: "est_total_spread es' / real_of_int mc_rounds \<le> ?R * ?p ^ ?n"
      by (simp add: pos_divide_le_eq mult_ac)
    have "rnd (est_total_spread es' / real_of_int mc_rounds)
          \<le> est_total_spread es' / real_of_int mc_rounds * ?p"
      by (rule rnd_upper[OF q0])
    also have "\<dots> \<le> ?R * ?p ^ ?n * ?p"
      using q1 by (intro mult_right_mono) (simp_all add: unit_roundoff_def)
    also have "\<dots> = spread_bound g seed_list * ?p ^ (num_nodes g + ?n + 1)"
      by (simp add: power_add mult_ac)
    finally show ?thesis using rnd_nonneg[OF q0] by (simp add: ddiv_def)
  qed
  with es'(1) show ?thesis
    by (simp add: estimate_weighted_spread_def)
qed

subsection \<open>Graphs built through the construction interface are well formed\<close>

lemma wf_empty_graph: "wf_graph empty_graph"
  by (simp add: wf_graph_def empty_graph_def num_nodes_def)

lemma get_internal_id_wf:
  assumes "wf_graph g"
  shows "wf_graph (snd (get_internal_id g x))
         \<and> fst (get_internal_id g x) < num_nodes (snd (get_internal_id g x))
         \<and> num_nodes g \<le> num_nodes (snd (get_internal_id g x))"
proof (cases "id_map g x")
  case None
  with assms show ?thesis
    by (auto simp: get_internal_id_def wf_graph_def num_nodes_def resize_def Let_def
             less_Suc_eq dest!: in_set_takeD)
next
  case (Some i)
  with assms show ?thesis
    by (auto simp: get_internal_id_def wf_graph_def)
qed

lemma set_node_value_wf: "wf_graph g \<Longrightarrow> wf_graph (set_node_value g x v)"
  using get_internal_id_wf[of g x]
  by (auto simp: set_node_value_def wf_graph_def num_nodes_def split: prod.splits)

lemma add_edge_wf:
  assumes "wf_graph g"
  shows "wf_graph (add_edge g s t p)"
proof -
  obtain u g1 where g1: "get_internal_id g s = (u, g1)" by (cases "get_internal_id g s")
  obtain v g2 where g2: "get_internal_id g1 t = (v, g2)" by (cases "get_internal_id g1 t")
  from get_internal_id_wf[OF assms, of s] g1 have wf1: "wf_graph g1" and u: "u < num_nodes g1"
    by auto
  from get_internal_id_wf[OF wf1, of t] g2 have wf2: "wf_graph g2" and v: "v < num_nodes g2"
    and le: "num_nodes g1 \<le> num_nodes g2" by auto
  have eq: "add_edge g s t p = g2\<lparr>adj := (adj g2)[u := adj g2 ! u @ [\<lparr>to = v, probability = p\<rparr>]]\<rparr>"
    by (simp add: add_edge_def g1 g2)
  from wf2 u le have ul: "u < length (adj g2)" by (simp add: wf_graph_def)
  then have "adj g2 ! u \<in> set (adj g2)" by simp
  with wf2 have old: "\<forall>e\<in>set (adj g2 ! u). to e < num_nodes g2"
    by (simp add: wf_graph_def)
  from wf2 v old show ?thesis
    unfolding eq wf_graph_def num_nodes_def
    by (auto dest!: set_update_subset_insert[THEN subsetD])
qed

lemma ex_graph_wf: "wf_graph ex_graph"
  unfolding ex_graph_def by (intro add_edge_wf set_node_value_wf wf_empty_graph)

lemma ex_graph_fields:
  "adj ex_graph = [[\<lparr>to = 1, probability = 1/2\<rparr>], []]"
  "node_values ex_graph = [1, 1]" "has_value ex_graph = [True, True]"
  "reverse_id_map ex_graph = [''A'', ''B'']"
  by (simp_all add: ex_graph_def add_edge_def set_node_value_def get_internal_id_def
        empty_graph_def resize_def)

subsection \<open>Bounds of the spread\<close>

lemma ex_tenth_wf: "wf_graph ex_tenth"
  unfolding ex_tenth_def by (intro set_node_value_wf wf_empty_graph)

lemma ex_tenth_fields:
  "adj ex_tenth = [[]]" "node_values ex_tenth = [tenth]" "has_value ex_tenth = [True]"
  "reverse_id_map ex_tenth = [''a'']"
  by (simp_all add: ex_tenth_def set_node_value_def get_internal_id_def
        empty_graph_def resize_def)

lemma reachable_no_edges: "edge_rel g = {} \<Longrightarrow> reachable g S = S"
  by (simp add: reachable_def)

lemma ex_tenth_bound: "spread_bound ex_tenth [0] = tenth"
proof -
  have "edge_rel ex_tenth = {}" by (auto simp: edge_rel_def ex_tenth_fields nth_Cons')
  then show ?thesis by (simp add: spread_bound_def reachable_no_edges ex_tenth_fields)
qed

text \<open>Every rollout on that graph returns the value of the node.\<close>

lemma ex_tenth_run:
  "t0 \<noteq> tok \<Longrightarrow>
   run_weighted_simulation_token ex_tenth [0] rng [t0] tok
   = Some \<lparr>sim_last_seen = [tok], sim_q = [], sim_total_value = tenth, sim_rng = rng\<rparr>"
  by (simp add: run_weighted_simulation_token_def bfs.simps ex_tenth_fields dadd_def rnd_tenth)

text \<open>The three sums and the quotient, rounded.\<close>

lemma tenth_sums:
  "dadd 0 tenth = tenth"
  "dadd tenth tenth = 3602879701896397 / 18014398509481984"
  "dadd (3602879701896397 / 18014398509481984) tenth = 1351079888211149 / 4503599627370496"
  "ddiv (1351079888211149 / 4503599627370496) 3 = 7205759403792795 / 72057594037927936"
  using rnd_at[of "-4" tenth 7205759403792794]
    rnd_at[of "-3" "tenth + tenth" 7205759403792794]
    rnd_at[of "-2" "3602879701896397 / 18014398509481984 + tenth" 5404319552844596]
    rnd_at[of "-4" "1351079888211149 / 4503599627370496 / 3" 7205759403792795]
  by (simp_all add: dadd_def ddiv_def pow2_def round_even_def tenth_def)

lemma ex_tenth_est:
  "estimate_weighted_spread ex_tenth [0] 3 rng
   = Some (7205759403792795 / 72057594037927936, rng)"
  by (simp add: estimate_weighted_spread_def numeral_3_eq_3 num_nodes_def ex_tenth_fields
      ex_tenth_run tenth_sums)

text \<open>
  Claim C8, as stated, fails: the totals are sums of \<^verbatim>\<open>double\<close>s, and a rounded sum can
  exceed the exact one. On the graph with the single node of value \<open>tenth\<close> (the
  \<^verbatim>\<open>double\<close> written \<^verbatim>\<open>0.1\<close>), seed list \<open>[0]\<close> and three rounds, the sum of the values
  of the reachable nodes is \<open>tenth\<close> and every rollout returns \<open>tenth\<close>; but the sum of the
  three rollouts is rounded upwards, and the mean that the estimator returns is the next
  \<^verbatim>\<open>double\<close> above \<open>tenth\<close>.
\<close>

theorem spread_bound_exceeded_by_rounding:
  "wf_graph ex_tenth \<and> set [0] \<subseteq> {..<num_nodes ex_tenth}
   \<and> list_all (\<lambda>v. 0 \<le> v) (node_values ex_tenth) \<and> (1::int) \<le> 3
   \<and> estimate_weighted_spread ex_tenth [0] 3 (sconst 0)
       = Some (7205759403792795 / 72057594037927936, sconst 0)
   \<and> spread_bound ex_tenth [0] = 7205759403792794 / 72057594037927936
   \<and> \<not> 7205759403792795 / 72057594037927936 \<le> spread_bound ex_tenth [0]"
  by (simp add: ex_tenth_wf ex_tenth_est ex_tenth_bound num_nodes_def ex_tenth_fields tenth_def)

text \<open>
  Claim C8, amended. On a well-formed graph with valid seed ids whose node values are zero
  or at least \<open>2^-990\<close> (so nonnegative): a rollout started on an activation vector of the
  graph's size on which the token is fresh (as every rollout of the estimator is) returns a
  total that is at least 0 and at most the sum \<open>\<Sigma>\<close> of the values of the nodes reachable
  from the seeds enlarged by one rounding per node, \<open>\<Sigma> * (1 + 2^-53)^n\<close> with \<open>n\<close> the
  number of nodes, whatever the generator; and for \<open>1 \<le> mc_rounds < 2^31\<close> the mean
  returned by the estimator is at least 0 and at most
  \<open>\<Sigma> * (1 + 2^-53)^(n + mc_rounds + 1)\<close>. The conditions on the size of the values, of
  their sum and of \<open>mc_rounds\<close> keep every intermediate result inside the range in which
  binary64 rounds as \<open>rnd\<close> does: nothing overflows and nothing is subnormal.
\<close>

theorem ic_spread_bounds_up_to_rounding:
  assumes "wf_graph g" and "\<forall>s\<in>set seed_list. s < num_nodes g"
    and "\<forall>v\<in>set (node_values g). v = 0 \<or> 1 / 2 ^ 990 \<le> v"
  shows "(length last_seen = num_nodes g \<and> fresh_token seen_token last_seen
          \<and> sum_list (node_values g) * (1 + unit_roundoff) ^ num_nodes g \<le> 2 ^ 1023 \<longrightarrow>
            (\<exists>st. run_weighted_simulation_token g seed_list rng last_seen seen_token = Some st
                  \<and> 0 \<le> sim_total_value st
                  \<and> sim_total_value st
                      \<le> spread_bound g seed_list * (1 + unit_roundoff) ^ num_nodes g))
         \<and> (1 \<le> mc_rounds \<and> mc_rounds < 2 ^ 31
            \<and> real_of_int mc_rounds * sum_list (node_values g)
                * (1 + unit_roundoff) ^ (num_nodes g + nat mc_rounds) \<le> 2 ^ 1023 \<longrightarrow>
            (\<exists>r rng'. estimate_weighted_spread g seed_list mc_rounds rng = Some (r, rng')
                  \<and> 0 \<le> r
                  \<and> r \<le> spread_bound g seed_list
                         * (1 + unit_roundoff) ^ (num_nodes g + nat mc_rounds + 1)))"
proof -
  from assms(3) have nonneg: "\<forall>v\<in>set (node_values g). 0 \<le> v"
    by (auto intro: order_trans[of 0 "1 / 2 ^ 990"])
  show ?thesis
  proof (intro conjI impI)
    assume "length last_seen = num_nodes g \<and> fresh_token seen_token last_seen
            \<and> sum_list (node_values g) * (1 + unit_roundoff) ^ num_nodes g \<le> 2 ^ 1023"
    with run_total_bounds[OF assms(1,2), of last_seen seen_token rng] nonneg
    show "\<exists>st. run_weighted_simulation_token g seed_list rng last_seen seen_token = Some st
               \<and> 0 \<le> sim_total_value st
               \<and> sim_total_value st
                   \<le> spread_bound g seed_list * (1 + unit_roundoff) ^ num_nodes g"
      by blast
  next
    assume "1 \<le> mc_rounds \<and> mc_rounds < 2 ^ 31
            \<and> real_of_int mc_rounds * sum_list (node_values g)
                * (1 + unit_roundoff) ^ (num_nodes g + nat mc_rounds) \<le> 2 ^ 1023"
    with estimate_bounds[OF assms(1,2), of mc_rounds rng] nonneg
    show "\<exists>r rng'. estimate_weighted_spread g seed_list mc_rounds rng = Some (r, rng')
                   \<and> 0 \<le> r
                   \<and> r \<le> spread_bound g seed_list
                          * (1 + unit_roundoff) ^ (num_nodes g + nat mc_rounds + 1)"
      by blast
  qed
qed

theorem ic_spread_bounds_up_to_rounding_witness:
  "wf_graph ex_graph \<and> set [0] \<subseteq> {..<num_nodes ex_graph}
   \<and> list_all (\<lambda>v. v = 0 \<or> 1 / 2 ^ 990 \<le> v) (node_values ex_graph)
   \<and> length [0, 0 :: uint] = num_nodes ex_graph \<and> fresh_token 2 [0, 0]
   \<and> sum_list (node_values ex_graph) * (1 + unit_roundoff) ^ num_nodes ex_graph \<le> 2 ^ 1023
   \<and> (1::int) \<le> 3 \<and> (3::int) < 2 ^ 31
   \<and> real_of_int 3 * sum_list (node_values ex_graph)
       * (1 + unit_roundoff) ^ (num_nodes ex_graph + nat 3) \<le> 2 ^ 1023
   \<and> (\<exists>st. run_weighted_simulation_token ex_graph [0] (sconst (1/4)) [0, 0] 2 = Some st
          \<and> 0 \<le> sim_total_value st
          \<and> sim_total_value st
              \<le> spread_bound ex_graph [0] * (1 + unit_roundoff) ^ num_nodes ex_graph)
   \<and> (\<exists>r rng'. estimate_weighted_spread ex_graph [0] 3 (sconst (1/4)) = Some (r, rng')
          \<and> 0 \<le> r
          \<and> r \<le> spread_bound ex_graph [0]
                 * (1 + unit_roundoff) ^ (num_nodes ex_graph + nat 3 + 1))"
proof -
  have seeds: "\<forall>s\<in>set [0]. s < num_nodes ex_graph"
    by (simp add: num_nodes_def ex_graph_fields)
  have vals: "\<forall>v\<in>set (node_values ex_graph). v = 0 \<or> 1 / 2 ^ 990 \<le> v"
    by (simp add: ex_graph_fields)
  have fr: "length [0, 0 :: uint] = num_nodes ex_graph \<and> fresh_token 2 [0, 0]"
    by (simp add: num_nodes_def ex_graph_fields fresh_token_def)
  have r1: "sum_list (node_values ex_graph) * (1 + unit_roundoff) ^ num_nodes ex_graph
            \<le> 2 ^ 1023"
    by (simp add: num_nodes_def ex_graph_fields unit_roundoff_def)
  have mc: "(1::int) \<le> 3 \<and> (3::int) < 2 ^ 31" by simp
  have "(1 + unit_roundoff) ^ 5 \<le> 2 ^ 5"
    by (intro power_mono) (simp_all add: unit_roundoff_def)
  then have r2: "real_of_int 3 * sum_list (node_values ex_graph)
              * (1 + unit_roundoff) ^ (num_nodes ex_graph + nat 3) \<le> 2 ^ 1023"
    by (simp add: num_nodes_def ex_graph_fields)
  from ic_spread_bounds_up_to_rounding[OF ex_graph_wf seeds vals, of "[0, 0]" 2 "sconst (1/4)" 3]
    fr r1 mc r2
  have "(\<exists>st. run_weighted_simulation_token ex_graph [0] (sconst (1/4)) [0, 0] 2 = Some st
          \<and> 0 \<le> sim_total_value st
          \<and> sim_total_value st
              \<le> spread_bound ex_graph [0] * (1 + unit_roundoff) ^ num_nodes ex_graph)
     \<and> (\<exists>r rng'. estimate_weighted_spread ex_graph [0] 3 (sconst (1/4)) = Some (r, rng')
          \<and> 0 \<le> r
          \<and> r \<le> spread_bound ex_graph [0]
                 * (1 + unit_roundoff) ^ (num_nodes ex_graph + nat 3 + 1))"
    by blast
  moreover have "set [0] \<subseteq> {..<num_nodes ex_graph}"
    by (simp add: num_nodes_def ex_graph_fields)
  moreover have "list_all (\<lambda>v. v = 0 \<or> 1 / 2 ^ 990 \<le> (v::real)) (node_values ex_graph)"
    by (simp add: ex_graph_fields)
  ultimately show ?thesis using ex_graph_wf fr r1 mc r2 by blast
qed

subsection \<open>The estimate depends on nothing but its four inputs\<close>

lemma same_marks_update:
  "same_marks t1 l1 t2 l2 \<Longrightarrow> same_marks t1 (l1[v := t1]) t2 (l2[v := t2])"
  unfolding same_marks_def
proof (intro conjI allI impI)
  assume a: "length l1 = length l2 \<and> (\<forall>i<length l1. (l1 ! i = t1) = (l2 ! i = t2))"
  then show "length (l1[v := t1]) = length (l2[v := t2])" by simp
  fix i assume "i < length (l1[v := t1])"
  with a show "(l1[v := t1] ! i = t1) = (l2[v := t2] ! i = t2)"
    by (cases "i = v") simp_all
qed

lemma mark_seeds_agree:
  "sim_agree t1 s1 t2 s2 \<Longrightarrow> mark_seeds g t1 ss s1 = Some a \<Longrightarrow>
   \<exists>b. mark_seeds g t2 ss s2 = Some b \<and> sim_agree t1 a t2 b"
proof (induction ss arbitrary: s1 s2)
  case Nil
  then show ?case by auto
next
  case (Cons s ss)
  from Cons.prems(1) have len: "length (sim_last_seen s1) = length (sim_last_seen s2)"
    and q: "sim_q s1 = sim_q s2" and t: "sim_total_value s1 = sim_total_value s2"
    and marks: "same_marks t1 (sim_last_seen s1) t2 (sim_last_seen s2)"
    by (auto simp: sim_agree_def same_marks_def)
  from Cons.prems(2) have s: "s < length (sim_last_seen s1)"
    by (auto split: if_splits)
  with marks have eq: "(sim_last_seen s1 ! s = t1) = (sim_last_seen s2 ! s = t2)"
    by (simp add: same_marks_def)
  show ?case
  proof (cases "sim_last_seen s1 ! s = t1")
    case True
    with Cons.prems(2) s have "mark_seeds g t1 ss s1 = Some a" by simp
    from Cons.IH[OF Cons.prems(1) this] True eq s len show ?thesis by simp
  next
    case False
    with Cons.prems(2) s have lv: "s < length (node_values g)" by (auto split: if_splits)
    let ?u1 = "s1\<lparr>sim_last_seen := (sim_last_seen s1)[s := t1], sim_q := sim_q s1 @ [s],
                  sim_total_value := dadd (sim_total_value s1) (node_values g ! s)\<rparr>"
    let ?u2 = "s2\<lparr>sim_last_seen := (sim_last_seen s2)[s := t2], sim_q := sim_q s2 @ [s],
                  sim_total_value := dadd (sim_total_value s2) (node_values g ! s)\<rparr>"
    from Cons.prems(2) False s lv have run: "mark_seeds g t1 ss ?u1 = Some a" by simp
    have "sim_agree t1 ?u1 t2 ?u2"
      using Cons.prems(1) same_marks_update[OF marks, of s] by (simp add: sim_agree_def)
    from Cons.IH[OF this run] False eq s len lv show ?thesis by simp
  qed
qed

lemma visit_edges_agree:
  "sim_agree t1 s1 t2 s2 \<Longrightarrow> visit_edges g t1 es s1 = Some a \<Longrightarrow>
   \<exists>b. visit_edges g t2 es s2 = Some b \<and> sim_agree t1 a t2 b"
proof (induction es arbitrary: s1 s2)
  case Nil
  then show ?case by auto
next
  case (Cons e es)
  from Cons.prems(1) have len: "length (sim_last_seen s1) = length (sim_last_seen s2)"
    and r: "sim_rng s1 = sim_rng s2"
    and marks: "same_marks t1 (sim_last_seen s1) t2 (sim_last_seen s2)"
    by (auto simp: sim_agree_def same_marks_def)
  from Cons.prems(2) have v: "to e < length (sim_last_seen s1)"
    by (auto simp: Let_def split: if_splits)
  with marks have eq: "(sim_last_seen s1 ! to e = t1) = (sim_last_seen s2 ! to e = t2)"
    by (simp add: same_marks_def)
  show ?case
  proof (cases "sim_last_seen s1 ! to e = t1")
    case True
    with Cons.prems(2) v have "visit_edges g t1 es s1 = Some a" by (simp add: Let_def)
    from Cons.IH[OF Cons.prems(1) this] True eq v len show ?thesis by (simp add: Let_def)
  next
    case False
    note fresh = this
    let ?r1 = "s1\<lparr>sim_rng := stl (sim_rng s1)\<rparr>"
    let ?r2 = "s2\<lparr>sim_rng := stl (sim_rng s2)\<rparr>"
    have ag: "sim_agree t1 ?r1 t2 ?r2" using Cons.prems(1) by (simp add: sim_agree_def)
    show ?thesis
    proof (cases "shd (sim_rng s1) \<le> probability e")
      case True
      with Cons.prems(2) fresh v have lv: "to e < length (node_values g)"
        by (auto simp: Let_def split: if_splits)
      let ?u1 = "?r1\<lparr>sim_last_seen := (sim_last_seen ?r1)[to e := t1],
                     sim_total_value := dadd (sim_total_value ?r1) (node_values g ! to e),
                     sim_q := sim_q ?r1 @ [to e]\<rparr>"
      let ?u2 = "?r2\<lparr>sim_last_seen := (sim_last_seen ?r2)[to e := t2],
                     sim_total_value := dadd (sim_total_value ?r2) (node_values g ! to e),
                     sim_q := sim_q ?r2 @ [to e]\<rparr>"
      from Cons.prems(2) fresh True v lv have run: "visit_edges g t1 es ?u1 = Some a"
        by (simp add: Let_def)
      have "sim_agree t1 ?u1 t2 ?u2"
        using ag same_marks_update[OF marks, of "to e"] by (simp add: sim_agree_def)
      from Cons.IH[OF this run] fresh True eq v len lv r show ?thesis by (simp add: Let_def)
    next
      case False
      with Cons.prems(2) fresh v have run: "visit_edges g t1 es ?r1 = Some a"
        by (simp add: Let_def)
      from Cons.IH[OF ag run] fresh False eq v len r show ?thesis by (simp add: Let_def)
    qed
  qed
qed

lemma bfs_agree:
  "bfs g t1 s1 = Some a \<Longrightarrow> sim_agree t1 s1 t2 s2 \<Longrightarrow>
   \<exists>b. bfs g t2 s2 = Some b \<and> sim_agree t1 a t2 b"
proof (induction g t1 s1 arbitrary: s2 rule: bfs.induct)
  case (1 g t1 s1)
  from "1.prems"(2) have q: "sim_q s2 = sim_q s1" by (simp add: sim_agree_def)
  show ?case
  proof (cases "sim_q s1")
    case Nil
    with "1.prems" q show ?thesis by (simp add: bfs.simps)
  next
    case (Cons u rest)
    from "1.prems"(1) Cons have ul: "u < length (adj g)"
      by (subst (asm) bfs.simps) (simp split: if_splits)
    with "1.prems"(1) Cons obtain m1 where
      m1: "visit_edges g t1 (adj g ! u) (s1\<lparr>sim_q := rest\<rparr>) = Some m1"
      and a: "bfs g t1 m1 = Some a"
      by (subst (asm) bfs.simps) (simp split: option.splits)
    have "sim_agree t1 (s1\<lparr>sim_q := rest\<rparr>) t2 (s2\<lparr>sim_q := rest\<rparr>)"
      using "1.prems"(2) by (simp add: sim_agree_def)
    from visit_edges_agree[OF this m1] obtain m2 where
      m2: "visit_edges g t2 (adj g ! u) (s2\<lparr>sim_q := rest\<rparr>) = Some m2"
      and ag: "sim_agree t1 m1 t2 m2" by blast
    from "1.IH"[OF Cons ul m1 a ag] obtain b where
      b: "bfs g t2 m2 = Some b" "sim_agree t1 a t2 b" by blast
    from m2 b(1) Cons q ul have "bfs g t2 s2 = Some b"
      by (subst bfs.simps) simp
    with b(2) show ?thesis by blast
  qed
qed

text \<open>
  A rollout does not depend on what the activation vector holds or on the value of the
  token, as long as the token is fresh.
\<close>

lemma run_agree:
  assumes "run_weighted_simulation_token g seed_list rng ls1 t1 = Some a"
    and "length ls1 = length ls2" "fresh_token t1 ls1" "fresh_token t2 ls2"
  shows "\<exists>b. run_weighted_simulation_token g seed_list rng ls2 t2 = Some b
              \<and> sim_total_value b = sim_total_value a \<and> sim_rng b = sim_rng a"
proof -
  let ?s1 = "\<lparr>sim_last_seen = ls1, sim_q = [], sim_total_value = 0, sim_rng = rng\<rparr>"
  let ?s2 = "\<lparr>sim_last_seen = ls2, sim_q = [], sim_total_value = 0, sim_rng = rng\<rparr>"
  from assms(2-4) have ag: "sim_agree t1 ?s1 t2 ?s2"
    by (auto simp: sim_agree_def same_marks_def fresh_token_def)
  from assms(1) obtain m1 where m1: "mark_seeds g t1 seed_list ?s1 = Some m1"
    and a: "bfs g t1 m1 = Some a"
    by (auto simp: run_weighted_simulation_token_def split: option.splits)
  from mark_seeds_agree[OF ag m1] obtain m2 where
    m2: "mark_seeds g t2 seed_list ?s2 = Some m2" "sim_agree t1 m1 t2 m2" by blast
  from bfs_agree[OF a m2(2)] obtain b where b: "bfs g t2 m2 = Some b" "sim_agree t1 a t2 b"
    by blast
  from m2(1) b show ?thesis
    by (auto simp: run_weighted_simulation_token_def sim_agree_def)
qed

lemma estimate_rounds_agree:
  assumes wf: "wf_graph g" and seeds: "\<forall>s\<in>set seed_list. s < num_nodes g"
  shows "est_inv g es1 \<Longrightarrow> est_inv g es2 \<Longrightarrow>
         est_total_spread es1 = est_total_spread es2 \<Longrightarrow> est_rng es1 = est_rng es2 \<Longrightarrow>
         \<exists>e1 e2. estimate_rounds g seed_list i es1 = Some e1
                \<and> estimate_rounds g seed_list i es2 = Some e2
                \<and> est_total_spread e1 = est_total_spread e2 \<and> est_rng e1 = est_rng e2"
proof (induction i arbitrary: es1 es2)
  case 0
  then show ?case by simp
next
  case (Suc i)
  let ?tok1 = "if est_token es1 + 1 = 0 then 1 else est_token es1 + 1"
  let ?ls1 = "if est_token es1 + 1 = 0 then replicate (length (est_last_seen es1)) 0
              else est_last_seen es1"
  let ?tok2 = "if est_token es2 + 1 = 0 then 1 else est_token es2 + 1"
  let ?ls2 = "if est_token es2 + 1 = 0 then replicate (length (est_last_seen es2)) 0
              else est_last_seen es2"
  note n1 = est_inv_next[OF Suc.prems(1)] and n2 = est_inv_next[OF Suc.prems(2)]
  from run_total_bounds[OF wf seeds n1(1,2), of "est_rng es1"]
  obtain a where a: "run_weighted_simulation_token g seed_list (est_rng es1) ?ls1 ?tok1 = Some a"
    "length (sim_last_seen a) = num_nodes g"
    "set (sim_last_seen a) \<subseteq> insert ?tok1 (set ?ls1)"
    by blast
  from n1(1) n2(1) have "length ?ls1 = length ?ls2" by simp
  from run_agree[OF a(1) this n1(2) n2(2)] Suc.prems(4)
  obtain b where b: "run_weighted_simulation_token g seed_list (est_rng es2) ?ls2 ?tok2 = Some b"
    "sim_total_value b = sim_total_value a" "sim_rng b = sim_rng a"
    by auto
  from run_total_bounds[OF wf seeds n2(1,2), of "est_rng es2"] b(1)
  have b': "length (sim_last_seen b) = num_nodes g"
    "set (sim_last_seen b) \<subseteq> insert ?tok2 (set ?ls2)"
    by auto
  let ?e1 = "\<lparr>est_total_spread = dadd (est_total_spread es1) (sim_total_value a),
              est_last_seen = sim_last_seen a, est_token = ?tok1, est_rng = sim_rng a\<rparr>"
  let ?e2 = "\<lparr>est_total_spread = dadd (est_total_spread es2) (sim_total_value b),
              est_last_seen = sim_last_seen b, est_token = ?tok2, est_rng = sim_rng b\<rparr>"
  have i1: "est_inv g ?e1" using a(2,3) n1(3) by (auto simp: est_inv_def)
  have i2: "est_inv g ?e2" using b' n2(3) by (auto simp: est_inv_def)
  have "est_total_spread ?e1 = est_total_spread ?e2" "est_rng ?e1 = est_rng ?e2"
    using Suc.prems(3) b(2,3) by simp_all
  from Suc.IH[OF i1 i2 this] obtain e1 e2 where
    e: "estimate_rounds g seed_list i ?e1 = Some e1" "estimate_rounds g seed_list i ?e2 = Some e2"
       "est_total_spread e1 = est_total_spread e2" "est_rng e1 = est_rng e2"
    by blast
  have "estimate_rounds g seed_list (Suc i) es1 = Some e1"
    using a(1) e(1) by (simp add: Let_def)
  moreover have "estimate_rounds g seed_list (Suc i) es2 = Some e2"
    using b(1) e(2) by (simp add: Let_def)
  ultimately show ?case using e(3,4) by blast
qed

text \<open>
  Claim C4. On a well-formed graph with valid seed ids the estimator returns, and the pair
  it returns (the mean and the generator state afterwards) is fixed by the graph, the seed
  list, \<open>mc_rounds\<close> and the initial generator state: the same rounds run from any other
  contents of the estimator's working memory (any activation vector of the graph's size and
  any token not below its entries, in place of the zero vector and the token 1) give exactly
  that pair. So two runs on the same four inputs return the same \<^verbatim>\<open>double\<close>, whatever
  an earlier run or an earlier round has left in that memory.
\<close>

theorem estimate_reproducible:
  assumes "wf_graph g" and "\<forall>s\<in>set seed_list. s < num_nodes g"
  shows "\<exists>r rng'. estimate_weighted_spread g seed_list mc_rounds rng = Some (r, rng')
           \<and> (\<forall>es. est_inv g es \<and> est_total_spread es = 0 \<and> est_rng es = rng \<longrightarrow>
                 map_option (\<lambda>es'. (ddiv (est_total_spread es') (real_of_int mc_rounds),
                                     est_rng es'))
                            (estimate_rounds g seed_list (nat mc_rounds) es)
                 = Some (r, rng'))"
proof -
  let ?es0 = "\<lparr>est_total_spread = 0, est_last_seen = replicate (num_nodes g) 0,
               est_token = 1, est_rng = rng\<rparr>"
  have inv0: "est_inv g ?es0" by (simp add: est_inv_def)
  from estimate_rounds_agree[OF assms inv0 inv0, of "nat mc_rounds"]
  obtain e0 where e0: "estimate_rounds g seed_list (nat mc_rounds) ?es0 = Some e0" by auto
  let ?r = "ddiv (est_total_spread e0) (real_of_int mc_rounds)"
  have run: "estimate_weighted_spread g seed_list mc_rounds rng = Some (?r, est_rng e0)"
    using e0 by (simp add: estimate_weighted_spread_def)
  have "map_option (\<lambda>es'. (ddiv (est_total_spread es') (real_of_int mc_rounds), est_rng es'))
                   (estimate_rounds g seed_list (nat mc_rounds) es)
        = Some (?r, est_rng e0)"
    if es: "est_inv g es \<and> est_total_spread es = 0 \<and> est_rng es = rng" for es
  proof -
    from es have "est_inv g es" "est_total_spread ?es0 = est_total_spread es"
      "est_rng ?es0 = est_rng es" by simp_all
    from estimate_rounds_agree[OF assms inv0 this, of "nat mc_rounds"] e0
    show ?thesis by auto
  qed
  with run show ?thesis by blast
qed

theorem estimate_reproducible_witness:
  "wf_graph ex_graph \<and> set [0] \<subseteq> {..<num_nodes ex_graph}
   \<and> est_inv ex_graph \<lparr>est_total_spread = 0, est_last_seen = [7, 3], est_token = 9,
                        est_rng = sconst (1/4)\<rparr>
   \<and> (\<exists>r rng'. estimate_weighted_spread ex_graph [0] 5 (sconst (1/4)) = Some (r, rng')
         \<and> map_option (\<lambda>es'. (ddiv (est_total_spread es') (real_of_int 5), est_rng es'))
             (estimate_rounds ex_graph [0] (nat 5)
                \<lparr>est_total_spread = 0, est_last_seen = [7, 3], est_token = 9,
                 est_rng = sconst (1/4)\<rparr>)
           = Some (r, rng'))"
proof -
  let ?es = "\<lparr>est_total_spread = 0, est_last_seen = [7, 3], est_token = 9,
             est_rng = sconst (1/4)\<rparr>"
  have seeds: "\<forall>s\<in>set [0]. s < num_nodes ex_graph"
    by (simp add: num_nodes_def ex_graph_fields)
  have inv: "est_inv ex_graph ?es"
    by (simp add: est_inv_def num_nodes_def ex_graph_fields)
  from estimate_reproducible[OF ex_graph_wf seeds, of 5 "sconst (1/4)"]
  obtain r rng' where r: "estimate_weighted_spread ex_graph [0] 5 (sconst (1/4)) = Some (r, rng')"
    and a: "\<forall>es. est_inv ex_graph es \<and> est_total_spread es = 0 \<and> est_rng es = sconst (1/4) \<longrightarrow>
              map_option (\<lambda>es'. (ddiv (est_total_spread es') (real_of_int 5), est_rng es'))
                (estimate_rounds ex_graph [0] (nat 5) es) = Some (r, rng')"
    by blast
  from a inv have "map_option (\<lambda>es'. (ddiv (est_total_spread es') (real_of_int 5), est_rng es'))
                     (estimate_rounds ex_graph [0] (nat 5) ?es) = Some (r, rng')"
    by simp
  moreover have "set [0] \<subseteq> {..<num_nodes ex_graph}"
    by (simp add: num_nodes_def ex_graph_fields)
  ultimately show ?thesis using ex_graph_wf inv r by blast
qed

subsection \<open>The activation test accepts a draw equal to the probability\<close>

text \<open>
  Claim C10. The activation test is \<^verbatim>\<open>r <= edge.probability\<close>: on the graph with the two
  nodes \<open>A\<close> and \<open>B\<close> (values \<open>vA\<close> and \<open>vB\<close>) and the single edge \<open>A \<rightarrow> B\<close> of probability 0,
  a rollout from the seed list \<open>[A]\<close> under any generator whose next draw is exactly 0
  activates \<open>B\<close> and returns the total to which first \<open>vA\<close> and then \<open>vB\<close> was added. The
  activation vector and the token are those of the estimator's first round.
\<close>

theorem zero_probability_edge_can_activate:
  assumes "A \<noteq> B" and "shd rng = 0"
  shows "run_weighted_simulation_token
           (add_edge (set_node_value (set_node_value empty_graph A vA) B vB) A B 0)
           [0] rng [0, 0] 2
         = Some \<lparr>sim_last_seen = [2, 2], sim_q = [], sim_total_value = dadd (dadd 0 vA) vB,
                 sim_rng = stl rng\<rparr>"
proof -
  let ?g = "add_edge (set_node_value (set_node_value empty_graph A vA) B vB) A B 0"
  from assms(1) have g: "adj ?g = [[\<lparr>to = 1, probability = 0\<rparr>], []]" "node_values ?g = [vA, vB]"
    by (simp_all add: add_edge_def set_node_value_def get_internal_id_def
        empty_graph_def resize_def)
  show ?thesis using assms(2)
    by (simp add: run_weighted_simulation_token_def bfs.simps g)
qed

theorem zero_probability_edge_can_activate_witness:
  "''A'' \<noteq> ''B'' \<and> shd (sconst (0::real)) = 0
   \<and> run_weighted_simulation_token
       (add_edge (set_node_value (set_node_value empty_graph ''A'' 1) ''B'' 7) ''A'' ''B'' 0)
       [0] (sconst 0) [0, 0] 2
     = Some \<lparr>sim_last_seen = [2, 2], sim_q = [], sim_total_value = 1 + 7,
             sim_rng = stl (sconst 0)\<rparr>"
proof -
  have ne: "''A'' \<noteq> ''B''" by simp
  have dr: "shd (sconst (0::real)) = 0" by simp
  have "dadd (dadd 0 1) 7 = (1 + 7 :: real)" by (simp add: darith)
  with zero_probability_edge_can_activate[OF ne dr, of 1 7] ne dr show ?thesis by simp
qed

subsection \<open>Invariants of the CELF loops\<close>

lemma set_pq_pop: "set (pq_pop q) \<subseteq> set q"
  by (simp add: pq_pop_def set_remove1_subset)

lemma set_pq_push [simp]: "set (pq_push e q) = insert e (set q)"
  by (simp add: pq_push_def)

lemma set_set_insert [simp]: "set (set_insert x xs) = insert x (set xs)"
  by (auto simp: set_insert_def set_insort_key)

lemma length_set_insert: "x \<notin> set xs \<Longrightarrow> length (set_insert x xs) = Suc (length xs)"
  by (simp add: set_insert_def)

lemma sorted_set_insert: "sorted xs \<Longrightarrow> sorted (set_insert x xs)"
  by (simp add: set_insert_def sorted_insort)

lemma distinct_set_insert: "distinct xs \<Longrightarrow> distinct (set_insert x xs)"
  by (simp add: set_insert_def distinct_insort)

text \<open>The three outcomes of one pass through the loop body.\<close>

lemma celf_body_cases:
  assumes "celf_body g mc rng2 st = Some st'"
  obtains
    (discard) "node_id (pq_top (pq st)) \<in> set (seeds st)" "st' = st\<lparr>pq := pq_pop (pq st)\<rparr>"
  | (commit) "node_id (pq_top (pq st)) \<notin> set (seeds st)"
      "iteration_computed (pq_top (pq st)) = length (seeds st)"
      "node_id (pq_top (pq st)) < length (reverse_id_map g)"
      "node_id (pq_top (pq st)) < length (node_values g)"
      "st' = st\<lparr>pq := pq_pop (pq st),
                 seeds := set_insert (node_id (pq_top (pq st))) (seeds st),
                 current_val := dadd (current_val st) (marginal_gain (pq_top (pq st))),
                 found_best := True,
                 cout := cout st @
                   [SelectedNode (reverse_id_map g ! node_id (pq_top (pq st)))
                      (node_values g ! node_id (pq_top (pq st)))
                      (marginal_gain (pq_top (pq st)))
                      (dadd (current_val st) (marginal_gain (pq_top (pq st))))]\<rparr>"
  | (recompute) new_val rng' where "node_id (pq_top (pq st)) \<notin> set (seeds st)"
      "iteration_computed (pq_top (pq st)) \<noteq> length (seeds st)"
      "estimate_weighted_spread g (seeds st @ [node_id (pq_top (pq st))]) mc
         (rng2 (rng_count st)) = Some (new_val, rng')"
      "st' = st\<lparr>pq := pq_push \<lparr>node_id = node_id (pq_top (pq st)),
                                 marginal_gain = dsub new_val (current_val st),
                                 iteration_computed = length (seeds st)\<rparr>
                        (pq_pop (pq st)),
                 rng_count := Suc (rng_count st)\<rparr>"
proof -
  consider (a) "node_id (pq_top (pq st)) \<in> set (seeds st)"
    | (b) "node_id (pq_top (pq st)) \<notin> set (seeds st)"
        "iteration_computed (pq_top (pq st)) = length (seeds st)"
    | (c) "node_id (pq_top (pq st)) \<notin> set (seeds st)"
        "iteration_computed (pq_top (pq st)) \<noteq> length (seeds st)"
    by blast
  then show thesis
  proof cases
    case a
    with assms have "st' = st\<lparr>pq := pq_pop (pq st)\<rparr>"
      by (simp add: celf_body_def Let_def)
    with a show thesis by (rule discard)
  next
    case b
    with assms show thesis
      by (intro commit) (auto simp: celf_body_def Let_def split: if_splits)
  next
    case c
    with assms obtain new_val rng' where
      "estimate_weighted_spread g (seeds st @ [node_id (pq_top (pq st))]) mc
         (rng2 (rng_count st)) = Some (new_val, rng')"
      by (auto simp: celf_body_def Let_def split: option.splits)
    with c assms show thesis
      by (intro recompute[of new_val rng']) (auto simp: celf_body_def Let_def)
  qed
qed

lemma celf_inner_invariant:
  "(\<And>s s'. P s \<Longrightarrow> \<not> found_best s \<Longrightarrow> pq s \<noteq> [] \<Longrightarrow>
      celf_body g mc rng2 s = Some s' \<Longrightarrow> P s') \<Longrightarrow>
   P st \<Longrightarrow> celf_inner g mc rng2 st = Some st' \<Longrightarrow> P st'"
proof (induction g mc rng2 st rule: celf_inner.induct)
  case (1 g mc rng2 st)
  note step = "1.prems"(1)
  show ?case
  proof (cases "\<not> found_best st \<and> pq st \<noteq> []")
    case True
    with "1.prems"(3) obtain s1 where s1: "celf_body g mc rng2 st = Some s1"
      "celf_inner g mc rng2 s1 = Some st'"
      by (subst (asm) celf_inner.simps) (auto split: option.splits)
    from "1.prems"(2) True s1(1) have "P s1" by (auto intro: step)
    from "1.IH"[OF True s1(1) step this s1(2)] show ?thesis by simp
  next
    case False
    with "1.prems" show ?thesis by (subst (asm) celf_inner.simps) auto
  qed
qed

lemma celf_outer_invariant:
  assumes step: "\<And>s s'. P s \<Longrightarrow> \<not> found_best s \<Longrightarrow> pq s \<noteq> [] \<Longrightarrow>
                   celf_body g mc rng2 s = Some s' \<Longrightarrow> P s'"
    and reset: "\<And>s. P s \<Longrightarrow> P (s\<lparr>found_best := False\<rparr>)"
    and warn: "\<And>s e. P s \<Longrightarrow> P (s\<lparr>cerr := e\<rparr>)"
  shows "P st \<Longrightarrow> celf_outer g k mc rng2 n st = Some st' \<Longrightarrow> P st'"
proof (induction n arbitrary: st)
  case 0
  then show ?case by simp
next
  case (Suc n)
  from Suc.prems(2) obtain s1 where
    s1: "celf_inner g mc rng2 (st\<lparr>found_best := False\<rparr>) = Some s1"
    by (auto split: option.splits)
  have P1: "P s1"
    by (rule celf_inner_invariant[where P = P, OF step reset[OF Suc.prems(1)] s1])
  show ?case
  proof (cases "found_best s1")
    case True
    with Suc.prems(2) s1 have "celf_outer g k mc rng2 n s1 = Some st'" by simp
    from Suc.IH[OF P1 this] show ?thesis .
  next
    case False
    with Suc.prems(2) s1 have "st' = s1\<lparr>cerr := cerr s1 @ [WarnQueueExhausted k (length (seeds s1))]\<rparr>"
      by simp
    with warn[OF P1] show ?thesis by simp
  qed
qed

lemma celf_body_only_eligible:
  assumes "only_eligible g st" "pq st \<noteq> []" "celf_body g mc rng2 st = Some st'"
  shows "only_eligible g st'"
proof -
  from assms(2) have "pq_top (pq st) \<in> set (pq st)" by (rule pq_top_mem)
  with assms(1) have top: "eligible g (node_id (pq_top (pq st)))"
    by (simp add: only_eligible_def)
  from assms(1) set_pq_pop[of "pq st"]
  have pop: "\<forall>e\<in>set (pq_pop (pq st)). eligible g (node_id e)"
    by (auto simp: only_eligible_def)
  from assms(3) show ?thesis
  proof (cases rule: celf_body_cases)
    case discard
    with assms(1) pop show ?thesis by (simp add: only_eligible_def)
  next
    case commit
    with assms(1) pop top show ?thesis by (simp add: only_eligible_def)
  next
    case (recompute new_val rng')
    with assms(1) pop top show ?thesis by (simp add: only_eligible_def)
  qed
qed

lemma celf_init_eligible:
  "celf_init g mc rng1 ns q = Some q' \<Longrightarrow> \<forall>e\<in>set q. eligible g (node_id e) \<Longrightarrow>
   \<forall>e\<in>set q'. eligible g (node_id e)"
proof (induction ns arbitrary: q)
  case Nil
  then show ?case by simp
next
  case (Cons i ns)
  show ?case
  proof (cases "has_value g ! i")
    case False
    with Cons.prems(1) have "celf_init g mc rng1 ns q = Some q'"
      by (simp split: if_splits)
    from Cons.IH[OF this Cons.prems(2)] show ?thesis .
  next
    case True
    with Cons.prems(1) obtain spread rng' where
      i: "i < length (has_value g)"
      and run: "celf_init g mc rng1 ns
             (pq_push \<lparr>node_id = i, marginal_gain = spread, iteration_computed = 0\<rparr> q) = Some q'"
      by (auto split: if_splits option.splits)
    from i True Cons.prems(2)
    have "\<forall>e\<in>set (pq_push \<lparr>node_id = i, marginal_gain = spread, iteration_computed = 0\<rparr> q).
            eligible g (node_id e)"
      by (simp add: eligible_def)
    from Cons.IH[OF run this] show ?thesis .
  qed
qed

lemma celf_only_eligible:
  assumes "celf_weighted_influence g k mc rng1 rng2 = Some st"
  shows "only_eligible g st"
proof -
  from assms obtain q where q: "celf_init g mc rng1 [0..<num_nodes g] [] = Some q"
    and run: "celf_outer g k mc rng2 (nat k)
            \<lparr>seeds = [], pq = q, current_val = 0, found_best = False,
             cout = [InitializingCELF (num_nodes g)], cerr = [], rng_count = 0\<rparr> = Some st"
    by (auto simp: celf_weighted_influence_def split: option.splits)
  from celf_init_eligible[OF q] have "\<forall>e\<in>set q. eligible g (node_id e)" by simp
  then have init: "only_eligible g \<lparr>seeds = [], pq = q, current_val = 0, found_best = False,
             cout = [InitializingCELF (num_nodes g)], cerr = [], rng_count = 0\<rparr>"
    by (simp add: only_eligible_def)
  show ?thesis
  proof (rule celf_outer_invariant[where P = "only_eligible g", OF _ _ _ init run])
    show "\<And>s s'. only_eligible g s \<Longrightarrow> \<not> found_best s \<Longrightarrow> pq s \<noteq> [] \<Longrightarrow>
                 celf_body g mc rng2 s = Some s' \<Longrightarrow> only_eligible g s'"
      by (rule celf_body_only_eligible)
  qed (simp_all add: only_eligible_def)
qed

lemma eligible_valid: "wf_graph g \<Longrightarrow> eligible g u \<Longrightarrow> u < num_nodes g"
  by (simp add: wf_graph_def eligible_def)

lemma celf_body_total:
  assumes wf: "wf_graph g" and el: "only_eligible g st" and ne: "pq st \<noteq> []"
  shows "\<exists>st'. celf_body g mc rng2 st = Some st'"
proof -
  let ?top = "pq_top (pq st)"
  from ne have "?top \<in> set (pq st)" by (rule pq_top_mem)
  with el wf have u: "node_id ?top < num_nodes g"
    by (auto simp: only_eligible_def intro: eligible_valid)
  from el wf have "\<forall>s\<in>set (seeds st). s < num_nodes g"
    by (auto simp: only_eligible_def intro: eligible_valid)
  with u have "\<forall>s\<in>set (seeds st @ [node_id ?top]). s < num_nodes g" by simp
  from estimate_bounds[OF wf this, of mc "rng2 (rng_count st)"]
  obtain r rng' where "estimate_weighted_spread g (seeds st @ [node_id ?top]) mc
     (rng2 (rng_count st)) = Some (r, rng')" by blast
  moreover from wf u have "node_id ?top < length (reverse_id_map g)"
    "node_id ?top < length (node_values g)"
    by (simp_all add: wf_graph_def num_nodes_def)
  ultimately show ?thesis by (simp add: celf_body_def Let_def)
qed

lemma celf_inner_total:
  "wf_graph g \<Longrightarrow> only_eligible g st \<Longrightarrow> \<exists>st'. celf_inner g mc rng2 st = Some st'"
proof (induction g mc rng2 st rule: celf_inner.induct)
  case (1 g mc rng2 st)
  show ?case
  proof (cases "\<not> found_best st \<and> pq st \<noteq> []")
    case True
    with celf_body_total[OF "1.prems"(1,2), of mc rng2] obtain s1 where
      s1: "celf_body g mc rng2 st = Some s1" by blast
    from True have "pq st \<noteq> []" by simp
    from celf_body_only_eligible[OF "1.prems"(2) this s1] have "only_eligible g s1" .
    from "1.IH"[OF True s1 "1.prems"(1) this] obtain st' where
      "celf_inner g mc rng2 s1 = Some st'" by blast
    with True s1 have "celf_inner g mc rng2 st = Some st'"
      by (subst celf_inner.simps) simp
    then show ?thesis by blast
  next
    case False
    then have "celf_inner g mc rng2 st = Some st" by (subst celf_inner.simps) auto
    then show ?thesis by blast
  qed
qed

lemma celf_inner_only_eligible:
  assumes "only_eligible g st" "celf_inner g mc rng2 st = Some st'"
  shows "only_eligible g st'"
  by (rule celf_inner_invariant[where P = "only_eligible g", OF _ assms])
     (rule celf_body_only_eligible)

lemma celf_outer_total:
  assumes wf: "wf_graph g"
  shows "only_eligible g st \<Longrightarrow> \<exists>st'. celf_outer g k mc rng2 n st = Some st'"
proof (induction n arbitrary: st)
  case 0
  then show ?case by simp
next
  case (Suc n)
  from Suc.prems have el: "only_eligible g (st\<lparr>found_best := False\<rparr>)"
    by (simp add: only_eligible_def)
  from celf_inner_total[OF wf el, of mc rng2] obtain s1 where
    s1: "celf_inner g mc rng2 (st\<lparr>found_best := False\<rparr>) = Some s1" by blast
  from celf_inner_only_eligible[OF el s1] have "only_eligible g s1" .
  from Suc.IH[OF this] s1 show ?case by auto
qed

lemma celf_init_total:
  assumes wf: "wf_graph g"
  shows "\<forall>i\<in>set ns. i < num_nodes g \<Longrightarrow> \<exists>q'. celf_init g mc rng1 ns q = Some q'"
proof (induction ns arbitrary: q)
  case Nil
  then show ?case by simp
next
  case (Cons i ns)
  from Cons.prems have i: "i < num_nodes g" by simp
  with wf have il: "i < length (has_value g)" by (simp add: wf_graph_def)
  from i have "\<forall>s\<in>set [i]. s < num_nodes g" by simp
  from estimate_bounds[OF wf this, of mc "rng1 i"] obtain r rng' where
    "estimate_weighted_spread g [i] mc (rng1 i) = Some (r, rng')" by blast
  with il Cons.IH Cons.prems show ?case by auto
qed

lemma celf_total:
  assumes wf: "wf_graph g"
  shows "\<exists>st. celf_weighted_influence g k mc rng1 rng2 = Some st"
proof -
  from celf_init_total[OF wf, of "[0..<num_nodes g]" mc rng1 "[]"] obtain q where
    q: "celf_init g mc rng1 [0..<num_nodes g] [] = Some q" by auto
  from celf_init_eligible[OF q] have "\<forall>e\<in>set q. eligible g (node_id e)" by simp
  then have "only_eligible g \<lparr>seeds = [], pq = q, current_val = 0, found_best = False,
             cout = [InitializingCELF (num_nodes g)], cerr = [], rng_count = 0\<rparr>"
    by (simp add: only_eligible_def)
  from celf_outer_total[OF wf this, of k mc rng2 "nat k"] q show ?thesis
    by (simp add: celf_weighted_influence_def)
qed

lemma celf_inner_result:
  "celf_inner g mc rng2 st = Some st' \<Longrightarrow>
   cerr st' = cerr st
   \<and> (if found_best st then st' = st
      else if found_best st' then length (seeds st') = Suc (length (seeds st))
      else pq st' = [] \<and> seeds st' = seeds st)"
proof (induction g mc rng2 st rule: celf_inner.induct)
  case (1 g mc rng2 st)
  show ?case
  proof (cases "\<not> found_best st \<and> pq st \<noteq> []")
    case True
    with "1.prems" obtain s1 where s1: "celf_body g mc rng2 st = Some s1"
      "celf_inner g mc rng2 s1 = Some st'"
      by (subst (asm) celf_inner.simps) (auto split: option.splits)
    note IH = "1.IH"[OF True s1]
    from s1(1) show ?thesis
    proof (cases rule: celf_body_cases)
      case discard
      with IH True show ?thesis by (auto split: if_splits)
    next
      case commit
      with IH True show ?thesis by (auto simp: length_set_insert split: if_splits)
    next
      case (recompute new_val rng')
      with IH True show ?thesis by (auto split: if_splits)
    qed
  next
    case False
    with "1.prems" have "st' = st" by (subst (asm) celf_inner.simps) auto
    with False show ?thesis by auto
  qed
qed

lemma celf_outer_result:
  "celf_outer g k mc rng2 n st = Some st' \<Longrightarrow>
   (length (seeds st') = length (seeds st) + n \<and> cerr st' = cerr st)
   \<or> (length (seeds st') < length (seeds st) + n \<and> pq st' = []
       \<and> cerr st' = cerr st @ [WarnQueueExhausted k (length (seeds st'))])"
proof (induction n arbitrary: st)
  case 0
  then show ?case by simp
next
  case (Suc n)
  from Suc.prems obtain s1 where
    s1: "celf_inner g mc rng2 (st\<lparr>found_best := False\<rparr>) = Some s1"
    by (auto split: option.splits)
  from celf_inner_result[OF s1] have c: "cerr s1 = cerr st"
    and r: "if found_best s1 then length (seeds s1) = Suc (length (seeds st))
            else pq s1 = [] \<and> seeds s1 = seeds st"
    by simp_all
  show ?case
  proof (cases "found_best s1")
    case True
    with Suc.prems s1 have "celf_outer g k mc rng2 n s1 = Some st'" by simp
    from Suc.IH[OF this] True r c show ?thesis by auto
  next
    case False
    with Suc.prems s1 have "st' = s1\<lparr>cerr := cerr s1 @ [WarnQueueExhausted k (length (seeds s1))]\<rparr>"
      by simp
    with False r c show ?thesis by auto
  qed
qed

lemma celf_result:
  assumes "celf_weighted_influence g k mc rng1 rng2 = Some st"
  shows "(length (seeds st) = nat k \<and> cerr st = [])
         \<or> (length (seeds st) < nat k \<and> pq st = []
             \<and> cerr st = [WarnQueueExhausted k (length (seeds st))])"
proof -
  from assms obtain q where
    "celf_outer g k mc rng2 (nat k)
            \<lparr>seeds = [], pq = q, current_val = 0, found_best = False,
             cout = [InitializingCELF (num_nodes g)], cerr = [], rng_count = 0\<rparr> = Some st"
    by (auto simp: celf_weighted_influence_def split: option.splits)
  from celf_outer_result[OF this] show ?thesis by simp
qed

lemma selected_names_append [simp]:
  "selected_names (xs @ ys) = selected_names xs @ selected_names ys"
  by (induction xs rule: selected_names.induct) auto

lemma mset_set_insert: "x \<notin> set xs \<Longrightarrow> mset (set_insert x xs) = add_mset x (mset xs)"
  by (simp add: set_insert_def)

lemma celf_body_seeds_logged:
  assumes "seeds_logged g st" "celf_body g mc rng2 st = Some st'"
  shows "seeds_logged g st'"
  using assms(2)
proof (cases rule: celf_body_cases)
  case discard
  with assms(1) show ?thesis by (simp add: seeds_logged_def)
next
  case commit
  with assms(1) show ?thesis
    by (simp add: seeds_logged_def sorted_set_insert distinct_set_insert mset_set_insert)
next
  case (recompute new_val rng')
  with assms(1) show ?thesis by (simp add: seeds_logged_def)
qed

lemma celf_seeds_logged:
  assumes "celf_weighted_influence g k mc rng1 rng2 = Some st"
  shows "seeds_logged g st"
proof -
  from assms obtain q where
    run: "celf_outer g k mc rng2 (nat k)
            \<lparr>seeds = [], pq = q, current_val = 0, found_best = False,
             cout = [InitializingCELF (num_nodes g)], cerr = [], rng_count = 0\<rparr> = Some st"
    by (auto simp: celf_weighted_influence_def split: option.splits)
  have init: "seeds_logged g \<lparr>seeds = [], pq = q, current_val = 0, found_best = False,
             cout = [InitializingCELF (num_nodes g)], cerr = [], rng_count = 0\<rparr>"
    by (simp add: seeds_logged_def)
  show ?thesis
  proof (rule celf_outer_invariant[where P = "seeds_logged g", OF _ _ _ init run])
    show "\<And>s s'. seeds_logged g s \<Longrightarrow> \<not> found_best s \<Longrightarrow> pq s \<noteq> [] \<Longrightarrow>
                 celf_body g mc rng2 s = Some s' \<Longrightarrow> seeds_logged g s'"
      by (rule celf_body_seeds_logged)
  qed (simp_all add: seeds_logged_def)
qed

subsection \<open>The flags mark the nodes with an assigned value\<close>

lemma graph_inv_empty: "graph_inv empty_graph {}"
  by (simp add: graph_inv_def wf_empty_graph ids_consistent_def)
     (simp add: empty_graph_def num_nodes_def)

lemma get_internal_id_inv:
  assumes "graph_inv g V"
  shows "graph_inv (snd (get_internal_id g x)) V
         \<and> fst (get_internal_id g x) < num_nodes (snd (get_internal_id g x))
         \<and> reverse_id_map (snd (get_internal_id g x)) ! fst (get_internal_id g x) = x"
proof (cases "id_map g x")
  case None
  let ?n = "length (reverse_id_map g)"
  let ?g1 = "g\<lparr>id_map := (id_map g)(x \<mapsto> ?n),
              reverse_id_map := reverse_id_map g @ [x],
              adj := resize (adj g) (?n + 1) [],
              node_values := resize (node_values g) (?n + 1) 0,
              has_value := resize (has_value g) (?n + 1) False\<rparr>"
  from None have eq: "get_internal_id g x = (?n, ?g1)"
    by (simp add: get_internal_id_def Let_def)
  from assms have wf: "wf_graph g" and ic: "ids_consistent g"
    and sub: "V \<subseteq> set (reverse_id_map g)"
    and fl: "\<forall>i<?n. has_value g ! i \<longleftrightarrow> reverse_id_map g ! i \<in> V"
    by (simp_all add: graph_inv_def num_nodes_def)
  from wf have lh: "length (has_value g) = ?n" by (simp add: wf_graph_def num_nodes_def)
  have fresh: "\<forall>i<?n. reverse_id_map g ! i \<noteq> x"
  proof (intro allI impI)
    fix i assume "i < ?n"
    with ic have "id_map g (reverse_id_map g ! i) = Some i"
      by (simp add: ids_consistent_def num_nodes_def)
    with None show "reverse_id_map g ! i \<noteq> x" by auto
  qed
  then have "x \<notin> set (reverse_id_map g)" by (auto simp: in_set_conv_nth)
  with sub have xV: "x \<notin> V" by auto
  have wf1: "wf_graph ?g1" using get_internal_id_wf[OF wf, of x] eq by simp
  have ic1: "ids_consistent ?g1"
    unfolding ids_consistent_def num_nodes_def
  proof (intro allI)
    fix y i
    show "(id_map ?g1 y = Some i)
          = (i < length (reverse_id_map ?g1) \<and> reverse_id_map ?g1 ! i = y)"
    proof (cases "i < ?n")
      case True
      with ic fresh show ?thesis
        by (auto simp: ids_consistent_def num_nodes_def nth_append)
    next
      case False
      with ic show ?thesis
        by (auto simp: ids_consistent_def num_nodes_def nth_append less_Suc_eq)
    qed
  qed
  have hv: "has_value ?g1 = has_value g @ [False]"
    using lh by (simp add: resize_def)
  have fl1: "\<forall>i<num_nodes ?g1. has_value ?g1 ! i \<longleftrightarrow> reverse_id_map ?g1 ! i \<in> V"
    using fl lh xV unfolding hv num_nodes_def
    by (auto simp: nth_append less_Suc_eq)
  from wf1 ic1 sub fl1 have "graph_inv ?g1 V" by (auto simp: graph_inv_def)
  then show ?thesis unfolding eq by (simp add: num_nodes_def)
next
  case (Some u)
  then have eq: "get_internal_id g x = (u, g)" by (simp add: get_internal_id_def)
  from assms Some have "u < num_nodes g \<and> reverse_id_map g ! u = x"
    by (simp add: graph_inv_def ids_consistent_def)
  with assms show ?thesis unfolding eq by simp
qed

lemma ids_consistent_inj:
  "ids_consistent g \<Longrightarrow> i < num_nodes g \<Longrightarrow> j < num_nodes g \<Longrightarrow>
   reverse_id_map g ! i = reverse_id_map g ! j \<Longrightarrow> i = j"
  unfolding ids_consistent_def by (metis option.inject)

lemma set_node_value_inv:
  assumes "graph_inv g V"
  shows "graph_inv (set_node_value g x v) (insert x V)"
proof -
  obtain u g1 where g1: "get_internal_id g x = (u, g1)" by (cases "get_internal_id g x")
  from get_internal_id_inv[OF assms, of x] g1
  have inv1: "graph_inv g1 V" and u: "u < num_nodes g1" and nm: "reverse_id_map g1 ! u = x"
    by simp_all
  let ?g2 = "g1\<lparr>node_values := (node_values g1)[u := v],
                has_value := (has_value g1)[u := True]\<rparr>"
  have eq: "set_node_value g x v = ?g2" by (simp add: set_node_value_def g1)
  from inv1 have wf1: "wf_graph g1" and ic1: "ids_consistent g1"
    and sub: "V \<subseteq> set (reverse_id_map g1)"
    and fl: "\<forall>i<num_nodes g1. has_value g1 ! i \<longleftrightarrow> reverse_id_map g1 ! i \<in> V"
    by (simp_all add: graph_inv_def)
  from wf1 have lh: "length (has_value g1) = num_nodes g1" by (simp add: wf_graph_def)
  have wf2: "wf_graph ?g2" using wf1 by (simp add: wf_graph_def num_nodes_def)
  have ic2: "ids_consistent ?g2" using ic1 by (simp add: ids_consistent_def num_nodes_def)
  have sub2: "insert x V \<subseteq> set (reverse_id_map ?g2)"
    using sub u nm by (auto simp: num_nodes_def in_set_conv_nth)
  have fl2: "has_value ?g2 ! i \<longleftrightarrow> reverse_id_map ?g2 ! i \<in> insert x V"
    if i: "i < num_nodes ?g2" for i
  proof (cases "i = u")
    case True
    with u lh nm show ?thesis by simp
  next
    case False
    from i have i1: "i < num_nodes g1" by (simp add: num_nodes_def)
    from False ids_consistent_inj[OF ic1 i1 u] nm have "reverse_id_map g1 ! i \<noteq> x" by auto
    with False fl i1 show ?thesis by simp
  qed
  from wf2 ic2 sub2 fl2 show ?thesis unfolding eq graph_inv_def by blast
qed

lemma add_edge_inv:
  assumes "graph_inv g V"
  shows "graph_inv (add_edge g s t p) V"
proof -
  obtain u g1 where g1: "get_internal_id g s = (u, g1)" by (cases "get_internal_id g s")
  obtain v g2 where g2: "get_internal_id g1 t = (v, g2)" by (cases "get_internal_id g1 t")
  from get_internal_id_inv[OF assms, of s] g1 have inv1: "graph_inv g1 V" by simp
  from get_internal_id_inv[OF inv1, of t] g2 have inv2: "graph_inv g2 V" by simp
  let ?g3 = "g2\<lparr>adj := (adj g2)[u := adj g2 ! u @ [\<lparr>to = v, probability = p\<rparr>]]\<rparr>"
  have eq: "add_edge g s t p = ?g3" by (simp add: add_edge_def g1 g2)
  from assms have "wf_graph g" by (simp add: graph_inv_def)
  from add_edge_wf[OF this, of s t p] have "wf_graph ?g3" by (simp add: eq)
  with inv2 show ?thesis unfolding eq
    by (simp add: graph_inv_def ids_consistent_def num_nodes_def)
qed

lemma constructed_inv: "constructed g V \<Longrightarrow> graph_inv g V"
proof (induction rule: constructed.induct)
  case empty
  show ?case by (rule graph_inv_empty)
next
  case (intern g V x)
  with get_internal_id_inv show ?case by blast
next
  case (edge g V s t p)
  then show ?case by (intro add_edge_inv)
next
  case (assign g V x v)
  then show ?case by (intro set_node_value_inv)
qed

subsection \<open>The worked examples, evaluated\<close>

lemma ex_values_fields:
  "adj ex_values = [[], []]"
  "node_values ex_values = [1, 2]" "has_value ex_values = [True, True]"
  "reverse_id_map ex_values = [''a'', ''b'']"
  by (simp_all add: ex_values_def add_edge_def set_node_value_def get_internal_id_def
        empty_graph_def resize_def)

lemma ex_values_constructed: "constructed ex_values {''b'', ''a''}"
  unfolding ex_values_def by (intro constructed.intros)

lemma ex_values_wf: "wf_graph ex_values"
  using constructed_inv[OF ex_values_constructed] by (simp add: graph_inv_def)

lemma ex_est:
  "estimate_weighted_spread ex_values [0] 1 r = Some (1, r)"
  "estimate_weighted_spread ex_values [Suc 0] 1 r = Some (2, r)"
  "estimate_weighted_spread ex_values [Suc 0, 0] 1 r = Some (3, r)"
  by (simp_all add: estimate_weighted_spread_def run_weighted_simulation_token_def bfs.simps
      ex_values_fields num_nodes_def darith)

lemma ex_init: "celf_init ex_values 1 ex_rng [0..<num_nodes ex_values] [] = Some (pq ex_state0)"
  by (simp add: num_nodes_def ex_values_fields upt_rec ex_est pq_push_def ex_state0_def)

lemma ex_run: "celf_weighted_influence ex_values 2 1 ex_rng ex_rng =
   Some \<lparr>seeds = [0, 1], pq = [], current_val = 3, found_best = True,
         cout = [InitializingCELF 2, SelectedNode ''b'' 2 2 2, SelectedNode ''a'' 1 1 3],
         cerr = [], rng_count = 1\<rparr>"
  unfolding celf_weighted_influence_def ex_init option.case
  by (simp add: celf_inner.simps celf_body_def ex_state0_def
      NodeGain_less_def pq_pop_def pq_push_def set_insert_def ex_est ex_values_fields
      numeral_2_eq_2 num_nodes_def darith)

lemma ex_mixed_fields:
  "adj ex_mixed = [[\<lparr>to = 1, probability = 1\<rparr>], []]"
  "node_values ex_mixed = [1, 0]" "has_value ex_mixed = [True, False]"
  "reverse_id_map ex_mixed = [''a'', ''c'']"
  by (simp_all add: ex_mixed_def add_edge_def set_node_value_def get_internal_id_def
        empty_graph_def resize_def)

lemma ex_mixed_constructed: "constructed ex_mixed {''a''}"
  unfolding ex_mixed_def by (intro constructed.intros)

lemma ex_mixed_est: "estimate_weighted_spread ex_mixed [0] 1 (sconst 0) = Some (1, sconst 0)"
  by (simp add: estimate_weighted_spread_def run_weighted_simulation_token_def bfs.simps
      ex_mixed_fields num_nodes_def darith)

lemma ex_mixed_run: "celf_weighted_influence ex_mixed 2 1 ex_rng ex_rng =
   Some \<lparr>seeds = [0], pq = [], current_val = 1, found_best = False,
         cout = [InitializingCELF 2, SelectedNode ''a'' 1 1 1],
         cerr = [WarnQueueExhausted 2 1], rng_count = 0\<rparr>"
  by (simp add: celf_weighted_influence_def celf_inner.simps celf_body_def ex_rng_def
      NodeGain_less_def pq_pop_def pq_push_def set_insert_def ex_mixed_est ex_mixed_fields
      numeral_2_eq_2 num_nodes_def upt_rec darith)

lemma ex_state0_top: "pq_top (pq ex_state0) = \<lparr>node_id = 1, marginal_gain = 2, iteration_computed = 0\<rparr>"
  by (simp add: ex_state0_def NodeGain_less_def)

lemma ex_state1_top: "pq_top (pq ex_state1) = \<lparr>node_id = 0, marginal_gain = 1, iteration_computed = 0\<rparr>"
  by (simp add: ex_state1_def)

subsection \<open>Phase 2 of CELF\<close>

text \<open>
  Claim C1. In Phase 2, while no seed has been found in the current iteration and the queue
  is not empty, the loop pops the top entry \<open>(u, g_u, t_u)\<close> and continues as follows.
  If \<open>u\<close> is already a seed, the entry is discarded and the loop goes on with the popped
  queue. If \<open>u\<close> is not a seed and \<open>t_u\<close> equals the size of the seed set, the loop ends
  with \<open>u\<close> inserted into the seed set, \<open>g_u\<close> added to \<open>current_val\<close> and one
  \<^verbatim>\<open>Selected Node\<close> line written. If \<open>u\<close> is not a seed and \<open>t_u\<close> differs from the size of
  the seed set, the estimator returns some \<open>new_val\<close> for the seeds followed by \<open>u\<close>, and the
  loop goes on with \<open>(u, new_val - current_val, |seeds|)\<close> pushed onto the popped queue, the
  seed set and \<open>current_val\<close> unchanged.
\<close>

theorem celf_phase2_step:
  assumes "wf_graph g" and "\<not> found_best st" and "pq st \<noteq> []"
    and "\<forall>s\<in>set (seeds st). s < num_nodes g"
    and "node_id (pq_top (pq st)) < num_nodes g"
  defines "tp \<equiv> pq_top (pq st)"
  shows "(node_id tp \<in> set (seeds st) \<longrightarrow>
            celf_inner g mc_rounds rng2 st
              = celf_inner g mc_rounds rng2 (st\<lparr>pq := pq_pop (pq st)\<rparr>))
       \<and> (node_id tp \<notin> set (seeds st) \<and> iteration_computed tp = length (seeds st) \<longrightarrow>
            celf_inner g mc_rounds rng2 st
              = Some (st\<lparr>pq := pq_pop (pq st),
                        seeds := set_insert (node_id tp) (seeds st),
                        current_val := dadd (current_val st) (marginal_gain tp),
                        found_best := True,
                        cout := cout st @
                          [SelectedNode (reverse_id_map g ! node_id tp)
                             (node_values g ! node_id tp) (marginal_gain tp)
                             (dadd (current_val st) (marginal_gain tp))]\<rparr>))
       \<and> (node_id tp \<notin> set (seeds st) \<and> iteration_computed tp \<noteq> length (seeds st) \<longrightarrow>
            (\<exists>new_val rng'.
               estimate_weighted_spread g (seeds st @ [node_id tp]) mc_rounds
                 (rng2 (rng_count st)) = Some (new_val, rng')
               \<and> celf_inner g mc_rounds rng2 st
                   = celf_inner g mc_rounds rng2
                       (st\<lparr>pq := pq_push \<lparr>node_id = node_id tp,
                                          marginal_gain = dsub new_val (current_val st),
                                          iteration_computed = length (seeds st)\<rparr>
                                  (pq_pop (pq st)),
                           rng_count := Suc (rng_count st)\<rparr>)))"
proof (intro conjI impI)
  assume "node_id tp \<in> set (seeds st)"
  then have "celf_body g mc_rounds rng2 st = Some (st\<lparr>pq := pq_pop (pq st)\<rparr>)"
    by (simp add: celf_body_def tp_def Let_def)
  with assms(2,3) show "celf_inner g mc_rounds rng2 st
              = celf_inner g mc_rounds rng2 (st\<lparr>pq := pq_pop (pq st)\<rparr>)"
    by (subst celf_inner.simps) simp
next
  let ?st' = "st\<lparr>pq := pq_pop (pq st),
                        seeds := set_insert (node_id tp) (seeds st),
                        current_val := dadd (current_val st) (marginal_gain tp),
                        found_best := True,
                        cout := cout st @
                          [SelectedNode (reverse_id_map g ! node_id tp)
                             (node_values g ! node_id tp) (marginal_gain tp)
                             (dadd (current_val st) (marginal_gain tp))]\<rparr>"
  assume "node_id tp \<notin> set (seeds st) \<and> iteration_computed tp = length (seeds st)"
  moreover from assms(1,5) have "node_id tp < length (reverse_id_map g)"
    "node_id tp < length (node_values g)"
    by (simp_all add: wf_graph_def num_nodes_def tp_def)
  ultimately have "celf_body g mc_rounds rng2 st = Some ?st'"
    by (simp add: celf_body_def tp_def Let_def)
  moreover have "celf_inner g mc_rounds rng2 ?st' = Some ?st'"
    by (subst celf_inner.simps) simp
  ultimately show "celf_inner g mc_rounds rng2 st = Some ?st'"
    using assms(2,3) by (subst celf_inner.simps) simp
next
  assume stale: "node_id tp \<notin> set (seeds st) \<and> iteration_computed tp \<noteq> length (seeds st)"
  from assms(4,5) have "\<forall>s\<in>set (seeds st @ [node_id tp]). s < num_nodes g"
    by (simp add: tp_def)
  from estimate_bounds[OF assms(1) this, of mc_rounds "rng2 (rng_count st)"]
  obtain new_val rng' where est: "estimate_weighted_spread g (seeds st @ [node_id tp]) mc_rounds
                 (rng2 (rng_count st)) = Some (new_val, rng')" by blast
  let ?st' = "st\<lparr>pq := pq_push \<lparr>node_id = node_id tp,
                                          marginal_gain = dsub new_val (current_val st),
                                          iteration_computed = length (seeds st)\<rparr>
                                  (pq_pop (pq st)),
                           rng_count := Suc (rng_count st)\<rparr>"
  from stale est have "celf_body g mc_rounds rng2 st = Some ?st'"
    by (simp add: celf_body_def tp_def Let_def)
  with assms(2,3) have "celf_inner g mc_rounds rng2 st = celf_inner g mc_rounds rng2 ?st'"
    by (subst celf_inner.simps) simp
  with est show "\<exists>new_val rng'.
               estimate_weighted_spread g (seeds st @ [node_id tp]) mc_rounds
                 (rng2 (rng_count st)) = Some (new_val, rng')
               \<and> celf_inner g mc_rounds rng2 st
                   = celf_inner g mc_rounds rng2
                       (st\<lparr>pq := pq_push \<lparr>node_id = node_id tp,
                                          marginal_gain = dsub new_val (current_val st),
                                          iteration_computed = length (seeds st)\<rparr>
                                  (pq_pop (pq st)),
                           rng_count := Suc (rng_count st)\<rparr>)"
    by blast
qed

theorem celf_phase2_step_witness:
  "celf_inner ex_values 1 ex_rng ex_state0
     = Some (ex_state1\<lparr>found_best := True\<rparr>)
   \<and> (\<exists>new_val rng'.
        estimate_weighted_spread ex_values [1, 0] 1 (ex_rng 0) = Some (new_val, rng')
        \<and> celf_inner ex_values 1 ex_rng ex_state1
            = celf_inner ex_values 1 ex_rng
                (ex_state1\<lparr>pq := [\<lparr>node_id = 0, marginal_gain = new_val - 2,
                                     iteration_computed = 1\<rparr>],
                            rng_count := 1\<rparr>))"
proof -
  have pre0: "\<not> found_best ex_state0" "pq ex_state0 \<noteq> []"
    "\<forall>s\<in>set (seeds ex_state0). s < num_nodes ex_values"
    "node_id (pq_top (pq ex_state0)) < num_nodes ex_values"
    by (simp_all add: ex_state0_top num_nodes_def ex_values_fields) (simp_all add: ex_state0_def)
  have pre1: "\<not> found_best ex_state1" "pq ex_state1 \<noteq> []"
    "\<forall>s\<in>set (seeds ex_state1). s < num_nodes ex_values"
    "node_id (pq_top (pq ex_state1)) < num_nodes ex_values"
    by (simp_all add: ex_state1_top num_nodes_def ex_values_fields) (simp_all add: ex_state1_def)
  have fresh: "node_id (pq_top (pq ex_state0)) \<notin> set (seeds ex_state0)
     \<and> iteration_computed (pq_top (pq ex_state0)) = length (seeds ex_state0)"
    by (simp add: ex_state0_top) (simp add: ex_state0_def)
  have stale: "node_id (pq_top (pq ex_state1)) \<notin> set (seeds ex_state1)
     \<and> iteration_computed (pq_top (pq ex_state1)) \<noteq> length (seeds ex_state1)"
    by (simp add: ex_state1_top) (simp add: ex_state1_def)
  from celf_phase2_step[OF ex_values_wf pre0, of 1 ex_rng] fresh
  have a: "celf_inner ex_values 1 ex_rng ex_state0 = Some (ex_state1\<lparr>found_best := True\<rparr>)"
    by (simp add: ex_state0_top ex_values_fields)
       (simp add: ex_state0_def ex_state1_def pq_pop_def NodeGain_less_def set_insert_def darith)
  from celf_phase2_step[OF ex_values_wf pre1, of 1 ex_rng] stale
  have b: "\<exists>new_val rng'.
        estimate_weighted_spread ex_values [1, 0] 1 (ex_rng 0) = Some (new_val, rng')
        \<and> celf_inner ex_values 1 ex_rng ex_state1
            = celf_inner ex_values 1 ex_rng
                (ex_state1\<lparr>pq := [\<lparr>node_id = 0, marginal_gain = dsub new_val 2,
                                     iteration_computed = 1\<rparr>],
                            rng_count := 1\<rparr>)"
    by (simp add: ex_state1_top)
       (simp add: ex_state1_def pq_pop_def pq_push_def)
  from b obtain new_val rng' where
    e: "estimate_weighted_spread ex_values [1, 0] 1 (ex_rng 0) = Some (new_val, rng')"
    and c: "celf_inner ex_values 1 ex_rng ex_state1
            = celf_inner ex_values 1 ex_rng
                (ex_state1\<lparr>pq := [\<lparr>node_id = 0, marginal_gain = dsub new_val 2,
                                     iteration_computed = 1\<rparr>],
                            rng_count := 1\<rparr>)"
    by blast
  from e have "new_val = 3" by (simp add: ex_est)
  then have "dsub new_val 2 = new_val - 2" by (simp add: darith)
  with e c a show ?thesis by auto
qed

subsection \<open>Only nodes with an assigned value become seeds\<close>

lemma eligible_assigned: "graph_inv g V \<Longrightarrow> eligible g u = assigned g V u"
  by (auto simp: graph_inv_def eligible_def assigned_def wf_graph_def)

lemma celf_body_heap_nodes:
  assumes "celf_body g mc rng2 s = Some s'" "pq s \<noteq> []"
  shows "node_id ` set (pq s') \<subseteq> node_id ` set (pq s)"
proof -
  from assms(2) have top: "pq_top (pq s) \<in> set (pq s)" by (rule pq_top_mem)
  have pop: "set (pq_pop (pq s)) \<subseteq> set (pq s)" by (rule set_pq_pop)
  from assms(1) show ?thesis
  proof (cases rule: celf_body_cases)
    case discard
    with pop show ?thesis by auto
  next
    case commit
    with pop show ?thesis by auto
  next
    case (recompute new_val rng')
    with pop top show ?thesis by auto
  qed
qed

text \<open>
  Claim C2. For every graph built through the construction interface, with \<open>V\<close> the
  external ids whose value was assigned, every \<open>k\<close>, every \<open>mc_rounds\<close> and all generator
  states: every seed the driver returns is a node with an assigned value (and its flag is
  set); every entry Phase 1 pushes names such a node; and a pass through the Phase 2 loop
  body on a queue that names only such nodes leaves a queue that names only such nodes.
  The graphs the parser returns are built through the interface (\<open>parse_constructed\<close>
  below).
\<close>

theorem celf_selects_only_assigned_nodes:
  assumes "constructed g V"
    and "celf_weighted_influence g k mc_rounds rng1 rng2 = Some st"
  shows "(\<forall>u\<in>set (seeds st). assigned g V u \<and> has_value g ! u)
     \<and> (\<forall>q. celf_init g mc_rounds rng1 [0..<num_nodes g] [] = Some q
            \<longrightarrow> (\<forall>e\<in>set q. assigned g V (node_id e)))
     \<and> (\<forall>s s'. (\<forall>e\<in>set (pq s). assigned g V (node_id e)) \<and> pq s \<noteq> []
                  \<and> celf_body g mc_rounds rng2 s = Some s'
            \<longrightarrow> (\<forall>e\<in>set (pq s'). assigned g V (node_id e)))"
proof (intro conjI allI impI ballI)
  have inv: "graph_inv g V" by (rule constructed_inv[OF assms(1)])
  {
    fix u assume "u \<in> set (seeds st)"
    with celf_only_eligible[OF assms(2)] have "eligible g u" by (simp add: only_eligible_def)
    with inv show "assigned g V u" by (simp add: eligible_assigned)
    from \<open>eligible g u\<close> show "has_value g ! u" by (simp add: eligible_def)
  }
  {
    fix q e assume "celf_init g mc_rounds rng1 [0..<num_nodes g] [] = Some q" "e \<in> set q"
    with celf_init_eligible[of g mc_rounds rng1 "[0..<num_nodes g]" "[]" q]
    have "eligible g (node_id e)" by simp
    with inv show "assigned g V (node_id e)" by (simp add: eligible_assigned)
  }
  {
    fix s s' e
    assume a: "(\<forall>e\<in>set (pq s). assigned g V (node_id e)) \<and> pq s \<noteq> []
               \<and> celf_body g mc_rounds rng2 s = Some s'" and e: "e \<in> set (pq s')"
    from a celf_body_heap_nodes[of g mc_rounds rng2 s s'] e
    have "node_id e \<in> node_id ` set (pq s)" by auto
    with a show "assigned g V (node_id e)" by auto
  }
qed

theorem celf_selects_only_assigned_nodes_witness:
  "constructed ex_mixed {''a''}
   \<and> (\<exists>st. celf_weighted_influence ex_mixed 2 1 ex_rng ex_rng = Some st
          \<and> seeds st = [0]
          \<and> (\<forall>u\<in>set (seeds st). assigned ex_mixed {''a''} u \<and> has_value ex_mixed ! u))
   \<and> \<not> assigned ex_mixed {''a''} 1"
proof -
  from celf_selects_only_assigned_nodes[OF ex_mixed_constructed ex_mixed_run]
  have "\<forall>u\<in>set [0]. assigned ex_mixed {''a''} u \<and> has_value ex_mixed ! u" by simp
  moreover have "\<not> assigned ex_mixed {''a''} 1"
    by (simp add: assigned_def ex_mixed_fields)
  ultimately show ?thesis using ex_mixed_constructed ex_mixed_run by simp
qed

subsection \<open>What the parser preserves\<close>

lemma parse_edges_preserves:
  "(\<And>g s t w. P g \<Longrightarrow> P (add_edge g s t w)) \<Longrightarrow>
   P g \<Longrightarrow> P (parse_edges stod content pos g)"
proof (induction stod content pos g rule: parse_edges.induct)
  case (1 stod content pos g)
  note step = "1.prems"(1)
  show ?case
  proof (cases "str_find content ''<edge'' pos")
    case None
    with "1.prems"(2) show ?thesis by (subst parse_edges.simps) simp
  next
    case (Some edge_pos)
    show ?thesis
    proof (cases "str_find content ''>'' edge_pos")
      case None
      with Some "1.prems"(2) show ?thesis by (subst parse_edges.simps) simp
    next
      case (Some edge_end)
      note f1 = \<open>str_find content ''<edge'' pos = Some edge_pos\<close>
      let ?tag = "substr content edge_pos (edge_end - edge_pos + 1)"
      let ?s = "get_xml_attr ?tag ''source''"
      let ?t = "get_xml_attr ?tag ''target''"
      let ?w = "get_xml_attr ?tag ''weight''"
      let ?prob = "if ?w \<noteq> '''' then (case stod ?w of Some w \<Rightarrow> w | None \<Rightarrow> rnd (1/10))
                   else rnd (1/10)"
      let ?g' = "if ?s \<noteq> '''' \<and> ?t \<noteq> '''' then add_edge g ?s ?t ?prob else g"
      from step "1.prems"(2) have "P ?g'" by auto
      from "1.IH"[OF f1 Some refl refl refl refl refl refl step this]
      have "P (parse_edges stod content (edge_end + 1) ?g')" .
      moreover have "parse_edges stod content pos g
                     = parse_edges stod content (edge_end + 1) ?g'"
        by (subst parse_edges.simps) (simp add: f1 Some Let_def)
      ultimately show ?thesis by (simp only:)
    qed
  qed
qed

lemma scan_attvalues_preserves:
  "(\<And>g x v. P g \<Longrightarrow> P (set_node_value g x v)) \<Longrightarrow>
   P g \<Longrightarrow> P (scan_attvalues stod node_block target_attr_id gexf_node_id p g)"
proof (induction stod node_block target_attr_id gexf_node_id p g rule: scan_attvalues.induct)
  case (1 stod node_block target_attr_id gexf_node_id p g)
  note step = "1.prems"(1)
  show ?case
  proof (cases "str_find node_block ''<attvalue'' p")
    case None
    with "1.prems"(2) show ?thesis by (subst scan_attvalues.simps) simp
  next
    case (Some av)
    show ?thesis
    proof (cases "str_find node_block ''>'' av")
      case None
      with Some "1.prems"(2) show ?thesis by (subst scan_attvalues.simps) simp
    next
      case (Some av_end)
      note f1 = \<open>str_find node_block ''<attvalue'' p = Some av\<close>
      let ?tag = "substr node_block av (av_end - av + 1)"
      let ?for = "get_xml_attr ?tag ''for''"
      let ?g' = "if target_attr_id \<noteq> '''' \<and> ?for = target_attr_id then
                   (let val_str = get_xml_attr ?tag ''value'' in
                    if val_str \<noteq> '''' then
                      (case stod val_str of
                         Some val \<Rightarrow> set_node_value g gexf_node_id val
                       | None \<Rightarrow> g)
                    else g)
                 else g"
      from step "1.prems"(2) have "P ?g'" by (auto simp: Let_def split: option.splits)
      from "1.IH"[OF f1 Some refl refl refl step this]
      have "P (scan_attvalues stod node_block target_attr_id gexf_node_id (av_end + 1) ?g')" .
      moreover have "scan_attvalues stod node_block target_attr_id gexf_node_id p g
                     = scan_attvalues stod node_block target_attr_id gexf_node_id (av_end + 1) ?g'"
        by (subst scan_attvalues.simps) (simp add: f1 Some Let_def)
      ultimately show ?thesis by (simp only:)
    qed
  qed
qed

lemma parse_nodes_preserves:
  "(\<And>g x v. P g \<Longrightarrow> P (set_node_value g x v)) \<Longrightarrow>
   (\<And>g x. P g \<Longrightarrow> P (snd (get_internal_id g x))) \<Longrightarrow>
   P g \<Longrightarrow> P (parse_nodes stod content target_attr_id pos g)"
proof (induction stod content target_attr_id pos g rule: parse_nodes.induct)
  case (1 stod content target_attr_id pos g)
  note assign = "1.prems"(1) and intern = "1.prems"(2)
  show ?case
  proof (cases "str_find content ''<node'' pos")
    case None
    with "1.prems"(3) show ?thesis by (subst parse_nodes.simps) simp
  next
    case (Some node_pos)
    show ?thesis
    proof (cases "str_find content ''>'' node_pos")
      case None
      with Some "1.prems"(3) show ?thesis by (subst parse_nodes.simps) simp
    next
      case (Some node_tag_end)
      note f1 = \<open>str_find content ''<node'' pos = Some node_pos\<close>
      let ?sc = "content ! (node_tag_end - 1) = CHR ''/''"
      let ?be = "if \<not> ?sc then
                   (case str_find content ''</node>'' (node_tag_end + 1) of
                      None \<Rightarrow> None
                    | Some close_pos \<Rightarrow> Some (close_pos + 7))
                 else Some node_tag_end"
      show ?thesis
      proof (cases ?be)
        case None
        then have "parse_nodes stod content target_attr_id pos g = g"
          by (subst parse_nodes.simps) (simp add: f1 Some Let_def)
        with "1.prems"(3) show ?thesis by simp
      next
        case (Some node_block_end)
        note f2 = \<open>str_find content ''>'' node_pos = Some node_tag_end\<close>
        let ?block = "substr content node_pos (node_block_end - node_pos)"
        let ?id = "get_xml_attr (substr ?block 0 (node_tag_end - node_pos + 1)) ''id''"
        let ?g' = "if ?id \<noteq> '''' then
                     (let (u, g1) = get_internal_id g ?id in
                      scan_attvalues stod ?block target_attr_id ?id 0 g1)
                   else g"
        have "P ?g'"
        proof (cases "?id \<noteq> ''''")
          case True
          from intern[OF "1.prems"(3), of ?id] have "P (snd (get_internal_id g ?id))" .
          from scan_attvalues_preserves[of P, OF assign this]
          have "P (scan_attvalues stod ?block target_attr_id ?id 0 (snd (get_internal_id g ?id)))" .
          with True show ?thesis by (simp add: split_def)
        next
          case False
          with "1.prems"(3) show ?thesis by simp
        qed
        from "1.IH"[OF f1 f2 refl refl Some refl refl refl assign intern this]
        have "P (parse_nodes stod content target_attr_id node_block_end ?g')" .
        moreover have "parse_nodes stod content target_attr_id pos g
                       = parse_nodes stod content target_attr_id node_block_end ?g'"
          using Some by (subst parse_nodes.simps) (simp add: f1 f2 Let_def)
        ultimately show ?thesis by (simp only:)
      qed
    qed
  qed
qed

lemma parse_preserves:
  assumes "P empty_graph"
    and "\<And>g x v. P g \<Longrightarrow> P (set_node_value g x v)"
    and "\<And>g x. P g \<Longrightarrow> P (snd (get_internal_id g x))"
    and "\<And>g s t w. P g \<Longrightarrow> P (add_edge g s t w)"
    and "parse stod fs filename target_attr_name = Inr (g, parse_err)"
  shows "P g"
proof -
  from assms(5) obtain content where c: "fs filename = Some content"
    by (auto simp: parse_def split: option.splits)
  obtain tid found where f: "find_attribute_id content target_attr_name 0 = (tid, found)"
    by (cases "find_attribute_id content target_attr_name 0")
  from assms(5) c f
  have g: "g = parse_edges stod content 0 (parse_nodes stod content tid 0 empty_graph)"
    by (simp add: parse_def Let_def)
  have "P (parse_nodes stod content tid 0 empty_graph)"
    by (rule parse_nodes_preserves[where P = P, OF assms(2) assms(3) assms(1)])
  then show ?thesis unfolding g
    by (rule parse_edges_preserves[where P = P, OF assms(4), rotated -1])
qed

lemma parse_constructed:
  assumes "parse stod fs filename target_attr_name = Inr (g, parse_err)"
  shows "\<exists>V. constructed g V"
  by (rule parse_preserves[where P = "\<lambda>g. \<exists>V. constructed g V", OF _ _ _ _ assms])
     (auto intro: constructed.intros)

lemma parse_wf:
  assumes "parse stod fs filename target_attr_name = Inr (g, parse_err)"
  shows "wf_graph g"
  using parse_constructed[OF assms] constructed_inv by (auto simp: graph_inv_def)

subsection \<open>The example file, evaluated\<close>

lemmas scan_simps = str_find_def get_xml_attr_def substr_def Let_def

lemma ex_stod: "std_stod ''5'' = Some 5" "std_stod ''1'' = Some 1" "std_stod ''2'' = Some 2"
  by (simp_all add: std_stod_def split_sign_def isspace_def isdigit_def decimal_def digit_val_def)

lemma ex_stoi:
  "std_stoi ''1'' = Some 1" "std_stoi ''2'' = Some 2" "std_stoi ''3'' = Some 3"
  "std_stoi ''abc'' = None"
  by (simp_all add: std_stoi_def split_sign_def isspace_def isdigit_def decimal_def digit_val_def)

lemma ex_attr: "find_attribute_id ex_content ''w'' 0 = (''0'', [FoundAttributeID ''w'' ''0''])"
  by (simp add: ex_content_def find_attribute_id.simps scan_simps)

lemma ex_parse_nodes: "parse_nodes std_stod ex_content ''0'' 0 empty_graph = ex_nodes"
  by (simp add: ex_content_def parse_nodes.simps scan_attvalues.simps scan_simps ex_stod
      set_node_value_def get_internal_id_def empty_graph_def resize_def ex_nodes_def)

lemma ex_parse_edges: "parse_edges std_stod ex_content 0 ex_nodes = ex_parsed"
  by (simp add: ex_content_def parse_edges.simps scan_simps ex_stod
      add_edge_def get_internal_id_def ex_nodes_def resize_def ex_parsed_def numeral_2_eq_2)

lemma ex_parse: "parse std_stod ex_fs ''graph.gexf'' ''w'' = Inr (ex_parsed, [FoundAttributeID ''w'' ''0''])"
  by (simp add: parse_def ex_fs_def ex_attr ex_parse_nodes ex_parse_edges)

lemma ex_parsed_fields:
  "adj ex_parsed = [[\<lparr>to = 2, probability = 5\<rparr>], [], []]"
  "node_values ex_parsed = [1, 2, 0]" "has_value ex_parsed = [True, True, False]"
  "reverse_id_map ex_parsed = [''a'', ''b'', ''c'']"
  by (simp_all add: ex_parsed_def)

lemma ex_parsed_est:
  "estimate_weighted_spread ex_parsed [0] 1 (sconst 0) = Some (1, sconst 0)"
  "estimate_weighted_spread ex_parsed [Suc 0] 1 (sconst 0) = Some (2, sconst 0)"
  "estimate_weighted_spread ex_parsed [Suc 0, 0] 1 (sconst 0) = Some (3, sconst 0)"
  by (simp_all add: estimate_weighted_spread_def run_weighted_simulation_token_def bfs.simps
      ex_parsed_fields num_nodes_def darith)

lemma ex_parsed_init:
  "celf_init ex_parsed 1 ex_rng [0..<num_nodes ex_parsed] []
   = Some [\<lparr>node_id = 0, marginal_gain = 1, iteration_computed = 0\<rparr>,
           \<lparr>node_id = 1, marginal_gain = 2, iteration_computed = 0\<rparr>]"
  by (simp add: num_nodes_def ex_parsed_fields upt_rec ex_parsed_est pq_push_def ex_rng_def)

lemma ex_parsed_run2: "celf_weighted_influence ex_parsed 2 1 ex_rng ex_rng = Some ex_final2"
  unfolding celf_weighted_influence_def ex_parsed_init option.case
  by (simp add: celf_inner.simps celf_body_def ex_final2_def ex_rng_def
      NodeGain_less_def pq_pop_def pq_push_def set_insert_def ex_parsed_est ex_parsed_fields
      numeral_2_eq_2 num_nodes_def darith)

lemma ex_parsed_run3: "celf_weighted_influence ex_parsed 3 1 ex_rng ex_rng = Some ex_final3"
  unfolding celf_weighted_influence_def ex_parsed_init option.case
  by (simp add: celf_inner.simps celf_body_def ex_final3_def ex_rng_def
      NodeGain_less_def pq_pop_def pq_push_def set_insert_def ex_parsed_est ex_parsed_fields
      numeral_3_eq_3 num_nodes_def darith)

lemma ex_env_fields:
  "env_stoi ex_env = std_stoi" "env_stod ex_env = std_stod" "env_fs ex_env = ex_fs"
  "env_rng1 ex_env = ex_rng" "env_rng2 ex_env = ex_rng"
  by (simp_all add: ex_env_def)

subsection \<open>Runs of the program\<close>

lemma main_success:
  assumes argc: "length argv = 4 \<or> length argv = 5"
    and k: "env_stoi env (argv ! 2) = Some k"
    and mc: "(if length argv = 5 then env_stoi env (argv ! 4) else Some DEFAULT_MC_ROUNDS)
             = Some mc"
    and p: "parse (env_stod env) (env_fs env) (argv ! 1) (argv ! 3) = Inr (g, parse_err)"
  shows "\<exists>st. celf_weighted_influence g k mc (env_rng1 env) (env_rng2 env) = Some st
              \<and> main env argv = Some (success_result g mc parse_err st)"
proof -
  from parse_wf[OF p] have wf: "wf_graph g" .
  from celf_total[OF wf, of k mc "env_rng1 env" "env_rng2 env"] obtain st where
    st: "celf_weighted_influence g k mc (env_rng1 env) (env_rng2 env) = Some st" by blast
  from celf_only_eligible[OF st] wf
  have seeds: "\<forall>s\<in>set (seeds st). s < length (reverse_id_map g)"
    by (auto simp: only_eligible_def num_nodes_def dest: eligible_valid)
  from wf have hv: "num_nodes g \<le> length (has_value g)" by (simp add: wf_graph_def)
  from argc obtain prog args where argv: "argv = prog # args" by (cases argv) auto
  from argc have a: "\<not> (length argv < 4 \<or> length argv > 5)" by auto
  have "main env argv = Some (success_result g mc parse_err st)"
    unfolding main_def argv list.case Let_def
    using a k mc p st seeds hv
    unfolding argv
    by (simp add: success_result_def eligible_count_def split del: if_split)
  with st show ?thesis by blast
qed

lemma main_exit0:
  assumes "main env argv = Some r" and "status r = Exit 0"
  shows "\<exists>k mc g parse_err st.
           (length argv = 4 \<or> length argv = 5)
           \<and> env_stoi env (argv ! 2) = Some k
           \<and> (if length argv = 5 then env_stoi env (argv ! 4) else Some DEFAULT_MC_ROUNDS)
               = Some mc
           \<and> parse (env_stod env) (env_fs env) (argv ! 1) (argv ! 3) = Inr (g, parse_err)
           \<and> celf_weighted_influence g k mc (env_rng1 env) (env_rng2 env) = Some st
           \<and> r = success_result g mc parse_err st"
proof -
  from assms(1) obtain prog args where argv: "argv = prog # args"
    by (cases argv) (auto simp: main_def)
  have argc: "length argv = 4 \<or> length argv = 5"
  proof (rule ccontr)
    assume "\<not> (length argv = 4 \<or> length argv = 5)"
    then have "length argv < 4 \<or> length argv > 5" by arith
    with assms(1) argv have "r = \<lparr>status = Exit 1, stdout = [], stderr = [Usage prog]\<rparr>"
      by (simp add: main_def Let_def)
    with assms(2) show False by simp
  qed
  then have a: "\<not> (length argv < 4 \<or> length argv > 5)" by auto
  obtain k where k: "env_stoi env (argv ! 2) = Some k"
  proof (cases "env_stoi env (argv ! 2)")
    case None
    with assms(1) a have "r = \<lparr>status = Terminated, stdout = [], stderr = []\<rparr>"
      unfolding main_def argv list.case Let_def unfolding argv[symmetric] by simp
    with assms(2) show ?thesis by simp
  next
    case (Some k)
    then show ?thesis by (rule that)
  qed
  obtain mc where mc: "(if length argv = 5 then env_stoi env (argv ! 4)
                        else Some DEFAULT_MC_ROUNDS) = Some mc"
  proof (cases "if length argv = 5 then env_stoi env (argv ! 4) else Some DEFAULT_MC_ROUNDS")
    case None
    with assms(1) a k have "r = \<lparr>status = Terminated, stdout = [], stderr = []\<rparr>"
      unfolding main_def argv list.case Let_def unfolding argv[symmetric]
      by (simp split del: if_split)
    with assms(2) show ?thesis by simp
  next
    case (Some mc)
    then show ?thesis by (rule that)
  qed
  obtain g parse_err where
    p: "parse (env_stod env) (env_fs env) (argv ! 1) (argv ! 3) = Inr (g, parse_err)"
  proof (cases "parse (env_stod env) (env_fs env) (argv ! 1) (argv ! 3)")
    case (Inl msg)
    with assms(1) a k mc
    have "r = \<lparr>status = Exit 1, stdout = [ParsingGEXF], stderr = [ErrorLine msg]\<rparr>"
      unfolding main_def argv list.case Let_def unfolding argv[symmetric]
      by (simp split del: if_split)
    with assms(2) show ?thesis by simp
  next
    case (Inr b)
    then show ?thesis by (cases b) (auto intro: that)
  qed
  from main_success[OF argc k mc p] assms(1) obtain st where
    "celf_weighted_influence g k mc (env_rng1 env) (env_rng2 env) = Some st"
    "r = success_result g mc parse_err st" by auto
  with argc k mc p show ?thesis by blast
qed

lemma selected_names_success [simp]:
  "selected_names (stdout (success_result g mc parse_err st)) = selected_names (cout st)"
  by (simp add: success_result_def)

lemma ex_main2:
  "main ex_env [''prog'', ''graph.gexf'', ''2'', ''w'', ''1'']
   = Some (success_result ex_parsed 1 [FoundAttributeID ''w'' ''0''] ex_final2)"
proof -
  let ?argv = "[''prog'', ''graph.gexf'', ''2'', ''w'', ''1'']"
  have "length ?argv = 4 \<or> length ?argv = 5" by simp
  moreover have "env_stoi ex_env (?argv ! 2) = Some 2" by (simp add: ex_env_fields ex_stoi)
  moreover have "(if length ?argv = 5 then env_stoi ex_env (?argv ! 4)
                  else Some DEFAULT_MC_ROUNDS) = Some 1"
    by (simp add: ex_env_fields ex_stoi)
  moreover have "parse (env_stod ex_env) (env_fs ex_env) (?argv ! 1) (?argv ! 3)
                 = Inr (ex_parsed, [FoundAttributeID ''w'' ''0''])"
    by (simp add: ex_env_fields ex_parse)
  ultimately show ?thesis
    using main_success[of ?argv ex_env 2 1 ex_parsed "[FoundAttributeID ''w'' ''0'']"]
    by (simp add: ex_env_fields ex_parsed_run2)
qed

subsection \<open>Edge probabilities on ingest\<close>

lemma graph_edges_sum:
  "graph_edges g
   = (\<Sum>u\<leftarrow>[0..<length (adj g)].
        mset (map (\<lambda>e. (reverse_id_map g ! u, reverse_id_map g ! to e, probability e))
                  (adj g ! u)))"
  by (simp add: graph_edges_def mset_concat comp_def)

lemma sum_list_single_index:
  fixes c :: "'a multiset"
  shows "u < n \<Longrightarrow> (\<Sum>i\<leftarrow>[0..<n]. if i = u then c else {#}) = c"
  by (simp add: interv_sum_list_conv_sum_set_nat sum.delta)

lemma get_internal_id_names:
  "i < num_nodes g \<Longrightarrow>
   reverse_id_map (snd (get_internal_id g x)) ! i = reverse_id_map g ! i"
  by (simp add: get_internal_id_def num_nodes_def nth_append Let_def split: option.splits)

lemma graph_edges_intern:
  assumes "wf_graph g"
  shows "graph_edges (snd (get_internal_id g x)) = graph_edges g"
proof (cases "id_map g x")
  case (Some i)
  then show ?thesis by (simp add: get_internal_id_def)
next
  case None
  let ?n = "length (reverse_id_map g)"
  from assms have la: "length (adj g) = ?n"
    and tos: "\<forall>es\<in>set (adj g). \<forall>e\<in>set es. to e < ?n"
    by (simp_all add: wf_graph_def num_nodes_def)
  let ?g1 = "snd (get_internal_id g x)"
  from None la have adj1: "adj ?g1 = adj g @ [[]]"
    and nm1: "reverse_id_map ?g1 = reverse_id_map g @ [x]"
    by (simp_all add: get_internal_id_def Let_def resize_def)
  define F1 where "F1 = (\<lambda>u. map (\<lambda>e. (reverse_id_map ?g1 ! u, reverse_id_map ?g1 ! to e,
                                        probability e)) (adj ?g1 ! u))"
  define F where "F = (\<lambda>u. map (\<lambda>e. (reverse_id_map g ! u, reverse_id_map g ! to e,
                                      probability e)) (adj g ! u))"
  have inner: "F1 u = F u" if u: "u < ?n" for u
  proof -
    from u la have "adj g ! u \<in> set (adj g)" by simp
    with tos have "\<forall>e\<in>set (adj g ! u). to e < ?n" by blast
    with u la show ?thesis by (simp add: F1_def F_def adj1 nm1 nth_append)
  qed
  have a: "map F1 [0..<?n] = map F [0..<?n]"
    by (rule map_cong, rule refl) (simp add: inner)
  have "F1 ?n = []" using la by (simp add: F1_def adj1 nth_append)
  moreover have "graph_edges ?g1 = mset (concat (map F1 [0..<Suc ?n]))"
    using la by (simp add: graph_edges_def F1_def adj1)
  ultimately have b: "graph_edges ?g1 = mset (concat (map F1 [0..<?n]))" by simp
  have c: "graph_edges g = mset (concat (map F [0..<?n]))"
    using la by (simp add: graph_edges_def F_def)
  show ?thesis by (simp only: a b c)
qed

lemma graph_edges_assign:
  assumes "wf_graph g"
  shows "graph_edges (set_node_value g x v) = graph_edges g"
proof -
  obtain u g1 where g1: "get_internal_id g x = (u, g1)" by (cases "get_internal_id g x")
  have "graph_edges (g1\<lparr>node_values := (node_values g1)[u := v],
                         has_value := (has_value g1)[u := True]\<rparr>) = graph_edges g1"
    by (simp add: graph_edges_def)
  with graph_edges_intern[OF assms, of x] g1 show ?thesis
    by (simp add: set_node_value_def)
qed

lemma graph_edges_edge:
  assumes "graph_inv g V"
  shows "graph_edges (add_edge g s t p) = add_mset (s, t, p) (graph_edges g)"
proof -
  obtain u g1 where g1: "get_internal_id g s = (u, g1)" by (cases "get_internal_id g s")
  obtain v g2 where g2: "get_internal_id g1 t = (v, g2)" by (cases "get_internal_id g1 t")
  from assms have wf: "wf_graph g" by (simp add: graph_inv_def)
  from get_internal_id_inv[OF assms, of s] g1
  have inv1: "graph_inv g1 V" and u: "u < num_nodes g1" and nu: "reverse_id_map g1 ! u = s"
    by simp_all
  from inv1 have wf1: "wf_graph g1" by (simp add: graph_inv_def)
  from get_internal_id_inv[OF inv1, of t] g2
  have inv2: "graph_inv g2 V" and v: "v < num_nodes g2" and nv: "reverse_id_map g2 ! v = t"
    by simp_all
  from get_internal_id_names[OF u, of t] g2 nu have nu2: "reverse_id_map g2 ! u = s" by simp
  from get_internal_id_wf[OF wf1, of t] g2 u have u2: "u < num_nodes g2" by simp
  from inv2 have la: "length (adj g2) = num_nodes g2" by (simp add: graph_inv_def wf_graph_def)
  let ?e = "\<lparr>to = v, probability = p\<rparr>"
  let ?g3 = "g2\<lparr>adj := (adj g2)[u := adj g2 ! u @ [?e]]\<rparr>"
  let ?f = "\<lambda>w e. (reverse_id_map g2 ! w, reverse_id_map g2 ! to e, probability e)"
  have eq: "add_edge g s t p = ?g3" by (simp add: add_edge_def g1 g2)
  have "mset (map (?f w) (adj ?g3 ! w))
        = mset (map (?f w) (adj g2 ! w)) + (if w = u then {#(s, t, p)#} else {#})"
    if "w < length (adj g2)" for w
    using that nu2 nv by (simp add: nth_list_update)
  then have "(\<Sum>w\<leftarrow>[0..<length (adj g2)]. mset (map (?f w) (adj ?g3 ! w)))
        = (\<Sum>w\<leftarrow>[0..<length (adj g2)].
             mset (map (?f w) (adj g2 ! w)) + (if w = u then {#(s, t, p)#} else {#}))"
    by (intro arg_cong[where f = sum_list] map_cong) simp_all
  also have "\<dots> = (\<Sum>w\<leftarrow>[0..<length (adj g2)]. mset (map (?f w) (adj g2 ! w)))
                  + (\<Sum>w\<leftarrow>[0..<length (adj g2)]. if w = u then {#(s, t, p)#} else {#})"
    by (rule sum_list_addf)
  also have "\<dots> = graph_edges g2 + {#(s, t, p)#}"
    using u2 la by (simp add: graph_edges_sum sum_list_single_index)
  finally have "graph_edges ?g3 = add_mset (s, t, p) (graph_edges g2)"
    by (simp add: graph_edges_sum)
  moreover have "graph_edges g2 = graph_edges g"
    using graph_edges_intern[OF wf, of s] graph_edges_intern[OF wf1, of t] g1 g2 by simp
  ultimately show ?thesis by (simp add: eq)
qed

text \<open>The third loop makes the calls listed by \<open>edge_calls\<close>, and nothing else.\<close>

lemma parse_edges_edges:
  "graph_inv g V \<Longrightarrow>
   graph_edges (parse_edges stod content pos g)
   = graph_edges g + mset (edge_calls stod content pos)"
proof (induction stod content pos g rule: parse_edges.induct)
  case (1 stod content pos g)
  show ?case
  proof (cases "str_find content ''<edge'' pos")
    case None
    then have "parse_edges stod content pos g = g" by (subst parse_edges.simps) simp
    moreover from None have "edge_tags content pos = []" by (subst edge_tags.simps) simp
    ultimately show ?thesis by (simp add: edge_calls_def)
  next
    case (Some edge_pos)
    show ?thesis
    proof (cases "str_find content ''>'' edge_pos")
      case None
      with Some have "parse_edges stod content pos g = g" by (subst parse_edges.simps) simp
      moreover from None Some have "edge_tags content pos = []"
        by (subst edge_tags.simps) simp
      ultimately show ?thesis by (simp add: edge_calls_def)
    next
      case (Some edge_end)
      note f1 = \<open>str_find content ''<edge'' pos = Some edge_pos\<close>
      let ?tag = "substr content edge_pos (edge_end - edge_pos + 1)"
      let ?s = "get_xml_attr ?tag ''source''"
      let ?t = "get_xml_attr ?tag ''target''"
      let ?w = "get_xml_attr ?tag ''weight''"
      let ?prob = "if ?w \<noteq> '''' then (case stod ?w of Some w \<Rightarrow> w | None \<Rightarrow> rnd (1/10))
                   else rnd (1/10)"
      let ?g' = "if ?s \<noteq> '''' \<and> ?t \<noteq> '''' then add_edge g ?s ?t ?prob else g"
      have inv': "graph_inv ?g' V" using "1.prems" by (simp add: add_edge_inv)
      from "1.IH"[OF f1 Some refl refl refl refl refl refl inv']
      have ih: "graph_edges (parse_edges stod content (edge_end + 1) ?g')
                = graph_edges ?g' + mset (edge_calls stod content (edge_end + 1))" .
      have step: "parse_edges stod content pos g = parse_edges stod content (edge_end + 1) ?g'"
        by (subst parse_edges.simps) (simp add: f1 Some Let_def)
      have tags: "edge_tags content pos = (?s, ?t, ?w) # edge_tags content (edge_end + 1)"
        by (subst edge_tags.simps) (simp add: f1 Some Let_def)
      have "graph_edges ?g' + mset (edge_calls stod content (edge_end + 1))
            = graph_edges g + mset (edge_calls stod content pos)"
        using graph_edges_edge[OF "1.prems", of ?s ?t ?prob]
        by (simp add: edge_calls_def tags weight_prob_def)
      with ih step show ?thesis by (simp only:)
    qed
  qed
qed

lemma parse_nodes_no_edges:
  "(\<exists>V. graph_inv (parse_nodes stod content tid 0 empty_graph) V)
   \<and> graph_edges (parse_nodes stod content tid 0 empty_graph) = {#}"
proof (rule parse_nodes_preserves[where P = "\<lambda>g. (\<exists>V. graph_inv g V) \<and> graph_edges g = {#}"])
  show "(\<exists>V. graph_inv empty_graph V) \<and> graph_edges empty_graph = {#}"
    using graph_inv_empty by (auto simp: graph_edges_def empty_graph_def)
next
  fix g x v
  assume "(\<exists>V. graph_inv g V) \<and> graph_edges g = {#}"
  then obtain V where V: "graph_inv g V" and e: "graph_edges g = {#}" by blast
  from V have "wf_graph g" by (simp add: graph_inv_def)
  from graph_edges_assign[OF this, of x v] e set_node_value_inv[OF V, of x v]
  show "(\<exists>V. graph_inv (set_node_value g x v) V) \<and> graph_edges (set_node_value g x v) = {#}"
    by auto
next
  fix g x
  assume "(\<exists>V. graph_inv g V) \<and> graph_edges g = {#}"
  then obtain V where V: "graph_inv g V" and e: "graph_edges g = {#}" by blast
  from V have "wf_graph g" by (simp add: graph_inv_def)
  from graph_edges_intern[OF this, of x] e get_internal_id_inv[OF V, of x]
  show "(\<exists>V. graph_inv (snd (get_internal_id g x)) V)
        \<and> graph_edges (snd (get_internal_id g x)) = {#}"
    by auto
qed

lemma all_probabilities_edges:
  "all_probabilities Q g \<longleftrightarrow> (\<forall>(s, t, p)\<in>set_mset (graph_edges g). Q p)"
proof
  assume a: "all_probabilities Q g"
  show "\<forall>(s, t, p)\<in>set_mset (graph_edges g). Q p"
    using a by (auto simp: all_probabilities_def graph_edges_def)
next
  assume b: "\<forall>(s, t, p)\<in>set_mset (graph_edges g). Q p"
  show "all_probabilities Q g"
    unfolding all_probabilities_def
  proof (intro ballI)
    fix es e assume "es \<in> set (adj g)" "e \<in> set es"
    then obtain u where "u < length (adj g)" "e \<in> set (adj g ! u)"
      by (auto simp: in_set_conv_nth)
    then have "(reverse_id_map g ! u, reverse_id_map g ! to e, probability e)
               \<in> set_mset (graph_edges g)"
      by (auto simp: graph_edges_def)
    with b show "Q (probability e)" by auto
  qed
qed

lemma ex_edge_calls: "edge_calls std_stod ex_content 0 = [(''a'', ''c'', 5)]"
  by (simp add: edge_calls_def weight_prob_def ex_content_def edge_tags.simps scan_simps ex_stod)


text \<open>
  Claim C9, as stated, fails: the parser passes the parsed weight to \<^verbatim>\<open>add_edge\<close>, which
  stores it as it is. On the example file the edge of weight 5 is stored with probability 5.
\<close>

theorem parse_weight_five_not_clamped:
  "map_sum id (adj \<circ> fst) (parse std_stod ex_fs ''graph.gexf'' ''w'')
     = Inr [[\<lparr>to = 2, probability = 5\<rparr>], [], []]
   \<and> \<not> probability \<lparr>to = 2, probability = 5\<rparr> \<le> 1"
  by (simp add: ex_parse ex_parsed_fields)

text \<open>
  Claim C9, amended. No clamping takes place. The edges of a parsed graph are exactly the
  calls of \<^verbatim>\<open>add_edge\<close> that the third loop makes: one edge for every \<^verbatim>\<open><edge\<close> tag with
  a source and a target, between the nodes of these names, and its probability is the
  value \<^verbatim>\<open>std::stod\<close> returned for the \<^verbatim>\<open>weight\<close> text of that same tag, or the default
  \<^verbatim>\<open>0.1\<close> when the tag has no weight or the weight does not parse. Hence the
  probabilities of the graph lie in \<open>[0,1]\<close> exactly when those values do.
\<close>

theorem parse_stores_weights_unclamped:
  assumes "parse stod fs filename target_attr_name = Inr (g, parse_err)"
    and "fs filename = Some content"
  shows "graph_edges g = mset (edge_calls stod content 0)
       \<and> (all_probabilities (\<lambda>p. 0 \<le> p \<and> p \<le> 1) g
            \<longleftrightarrow> (\<forall>(s, t, p)\<in>set (edge_calls stod content 0). 0 \<le> p \<and> p \<le> 1))"
proof -
  obtain tid found where f: "find_attribute_id content target_attr_name 0 = (tid, found)"
    by (cases "find_attribute_id content target_attr_name 0")
  from assms f
  have g: "g = parse_edges stod content 0 (parse_nodes stod content tid 0 empty_graph)"
    by (simp add: parse_def Let_def)
  from parse_nodes_no_edges[of stod content tid] obtain V where
    inv: "graph_inv (parse_nodes stod content tid 0 empty_graph) V"
    and none: "graph_edges (parse_nodes stod content tid 0 empty_graph) = {#}"
    by blast
  from parse_edges_edges[OF inv, of stod content 0] none
  have e: "graph_edges g = mset (edge_calls stod content 0)" by (simp add: g)
  then show ?thesis by (simp add: all_probabilities_edges)
qed

theorem parse_stores_weights_unclamped_witness:
  "parse std_stod ex_fs ''graph.gexf'' ''w'' = Inr (ex_parsed, [FoundAttributeID ''w'' ''0''])
   \<and> ex_fs ''graph.gexf'' = Some ex_content
   \<and> edge_calls std_stod ex_content 0 = [(''a'', ''c'', 5)]
   \<and> graph_edges ex_parsed = {#(''a'', ''c'', 5)#}
   \<and> \<not> all_probabilities (\<lambda>p. 0 \<le> p \<and> p \<le> 1) ex_parsed"
proof -
  have fs: "ex_fs ''graph.gexf'' = Some ex_content" by (simp add: ex_fs_def)
  from parse_stores_weights_unclamped[OF ex_parse fs] ex_parse fs
  show ?thesis by (simp add: ex_edge_calls)
qed

subsection \<open>The final line of the output\<close>

text \<open>
  Claim C3, as stated, fails: the seed set is a \<^verbatim>\<open>std::set<int>\<close>, which is iterated in
  ascending order of the internal ids. On the example file with \<open>k = 2\<close> node \<open>b\<close> is
  selected before node \<open>a\<close>, and the final line lists \<open>a\<close> before \<open>b\<close>.
\<close>

theorem selected_seeds_line_not_in_selection_order:
  "map_option stdout (main ex_env [''prog'', ''graph.gexf'', ''2'', ''w'', ''1''])
   = Some [ParsingGEXF, NodesLine 3, EligibleLine 2, RunningLine 1, InitializingCELF 3,
           SelectedNode ''b'' 2 2 2, SelectedNode ''a'' 1 1 3,
           Separator, SelectedSeeds [''a'', ''b''], TimeLine]"
  by (simp add: ex_main2 success_result_def ex_final2_def ex_parsed_fields num_nodes_def
      eligible_count_def upt_rec)

text \<open>
  Claim C3, amended. In every run that ends with exit code 0 the output ends with the
  separator, the \<^verbatim>\<open>Selected Seeds\<close> line and the time line; the \<^verbatim>\<open>Selected Seeds\<close> line
  lists the external ids of the selected seeds in ascending order of their internal ids,
  each once, and they are the ids of the \<^verbatim>\<open>Selected Node\<close> lines (which appear in
  selection order) up to order.
\<close>

theorem selected_seeds_line_in_id_order:
  assumes "main env argv = Some r" and "status r = Exit 0"
    and "parse (env_stod env) (env_fs env) (argv ! 1) (argv ! 3) = Inr (g, parse_err)"
  shows "\<exists>ids before.
           stdout r = before @ [Separator,
                                SelectedSeeds (map (\<lambda>s. reverse_id_map g ! s) ids), TimeLine]
           \<and> sorted ids \<and> distinct ids
           \<and> mset (map (\<lambda>s. reverse_id_map g ! s) ids) = mset (selected_names (stdout r))"
proof -
  from main_exit0[OF assms(1,2)] assms(3) obtain k mc st where
    st: "celf_weighted_influence g k mc (env_rng1 env) (env_rng2 env) = Some st"
    and r: "r = success_result g mc parse_err st"
    by auto
  from celf_seeds_logged[OF st] have lg: "seeds_logged g st" .
  have "stdout r = ([ParsingGEXF, NodesLine (num_nodes g), EligibleLine (eligible_count g),
                RunningLine mc] @ cout st) @
               [Separator, SelectedSeeds (map (\<lambda>s. reverse_id_map g ! s) (seeds st)),
                TimeLine]"
    by (simp add: r success_result_def)
  moreover from lg have "sorted (seeds st) \<and> distinct (seeds st)
     \<and> mset (map (\<lambda>s. reverse_id_map g ! s) (seeds st)) = mset (selected_names (stdout r))"
    by (simp add: seeds_logged_def r)
  ultimately show ?thesis by blast
qed

theorem selected_seeds_line_in_id_order_witness:
  "\<exists>ids before.
      stdout (success_result ex_parsed 1 [FoundAttributeID ''w'' ''0''] ex_final2)
        = before @ [Separator, SelectedSeeds (map (\<lambda>s. reverse_id_map ex_parsed ! s) ids),
                    TimeLine]
      \<and> sorted ids \<and> distinct ids
      \<and> mset (map (\<lambda>s. reverse_id_map ex_parsed ! s) ids)
          = mset (selected_names
                    (stdout (success_result ex_parsed 1 [FoundAttributeID ''w'' ''0''] ex_final2)))"
proof -
  have st: "status (success_result ex_parsed 1 [FoundAttributeID ''w'' ''0''] ex_final2) = Exit 0"
    by (simp add: success_result_def)
  have p: "parse (env_stod ex_env) (env_fs ex_env)
             ([''prog'', ''graph.gexf'', ''2'', ''w'', ''1''] ! 1)
             ([''prog'', ''graph.gexf'', ''2'', ''w'', ''1''] ! 3)
           = Inr (ex_parsed, [FoundAttributeID ''w'' ''0''])"
    by (simp add: ex_env_fields ex_parse)
  from selected_seeds_line_in_id_order[OF ex_main2 st p] show ?thesis .
qed

subsection \<open>Exhaustion of the queue\<close>

text \<open>
  Claim C5. When the command line is well formed, the file is read and the driver returns
  fewer than \<open>k\<close> seeds, then the queue is empty, the driver has written exactly one
  warning, which names \<open>k\<close> and the number of seeds selected, and the process writes its
  usual output for the partial seed set and exits with code 0.
\<close>

theorem heap_exhaustion_warns_and_exits_zero:
  assumes "length argv = 4 \<or> length argv = 5"
    and "env_stoi env (argv ! 2) = Some k"
    and "(if length argv = 5 then env_stoi env (argv ! 4) else Some DEFAULT_MC_ROUNDS)
         = Some mc_rounds"
    and "parse (env_stod env) (env_fs env) (argv ! 1) (argv ! 3) = Inr (g, parse_err)"
    and "celf_weighted_influence g k mc_rounds (env_rng1 env) (env_rng2 env) = Some st"
    and "length (seeds st) < nat k"
  shows "pq st = []
         \<and> cerr st = [WarnQueueExhausted k (length (seeds st))]
         \<and> main env argv = Some (success_result g mc_rounds parse_err st)
         \<and> status (success_result g mc_rounds parse_err st) = Exit 0
         \<and> stderr (success_result g mc_rounds parse_err st)
             = parse_err @ [WarnQueueExhausted k (length (seeds st))]"
proof -
  from celf_result[OF assms(5)] assms(6)
  have w: "pq st = []" "cerr st = [WarnQueueExhausted k (length (seeds st))]" by auto
  from main_success[OF assms(1-4)] assms(5)
  have "main env argv = Some (success_result g mc_rounds parse_err st)" by auto
  with w show ?thesis by (simp add: success_result_def)
qed

theorem heap_exhaustion_warns_and_exits_zero_witness:
  "length (seeds ex_final3) < nat 3
   \<and> pq ex_final3 = []
   \<and> cerr ex_final3 = [WarnQueueExhausted 3 (length (seeds ex_final3))]
   \<and> main ex_env [''prog'', ''graph.gexf'', ''3'', ''w'', ''1'']
       = Some (success_result ex_parsed 1 [FoundAttributeID ''w'' ''0''] ex_final3)
   \<and> status (success_result ex_parsed 1 [FoundAttributeID ''w'' ''0''] ex_final3) = Exit 0
   \<and> stderr (success_result ex_parsed 1 [FoundAttributeID ''w'' ''0''] ex_final3)
       = [FoundAttributeID ''w'' ''0'', WarnQueueExhausted 3 2]"
proof -
  let ?argv = "[''prog'', ''graph.gexf'', ''3'', ''w'', ''1'']"
  have a: "length ?argv = 4 \<or> length ?argv = 5" by simp
  have k: "env_stoi ex_env (?argv ! 2) = Some 3" by (simp add: ex_env_fields ex_stoi)
  have mc: "(if length ?argv = 5 then env_stoi ex_env (?argv ! 4)
             else Some DEFAULT_MC_ROUNDS) = Some 1"
    by (simp add: ex_env_fields ex_stoi)
  have p: "parse (env_stod ex_env) (env_fs ex_env) (?argv ! 1) (?argv ! 3)
           = Inr (ex_parsed, [FoundAttributeID ''w'' ''0''])"
    by (simp add: ex_env_fields ex_parse)
  have run: "celf_weighted_influence ex_parsed 3 1 (env_rng1 ex_env) (env_rng2 ex_env)
             = Some ex_final3"
    by (simp add: ex_env_fields ex_parsed_run3)
  have few: "length (seeds ex_final3) < nat 3" by (simp add: ex_final3_def)
  have len: "length (seeds ex_final3) = 2" by (simp add: ex_final3_def)
  from heap_exhaustion_warns_and_exits_zero[OF a k mc p run few] few len
  show ?thesis by simp
qed

subsection \<open>Exit codes\<close>

text \<open>
  Claim C6 at the command line \<^verbatim>\<open>prog graph.gexf abc w\<close>: \<^verbatim>\<open>std::stoi\<close> throws outside
  the \<^verbatim>\<open>try\<close> block, so the process is terminated; it neither prints the usage line nor
  returns 1.
\<close>

theorem main_unparseable_k_terminates:
  "main ex_env [''prog'', ''graph.gexf'', ''abc'', ''w'']
   = Some \<lparr>status = Terminated, stdout = [], stderr = []\<rparr>"
  by (simp add: main_def ex_env_fields ex_stoi)

theorem main_unparseable_k_terminates_witness:
  "map_option status (main ex_env [''prog'', ''graph.gexf'', ''abc'', ''w'']) = Some Terminated
   \<and> map_option stderr (main ex_env [''prog'', ''graph.gexf'', ''abc'', ''w'']) = Some []
   \<and> Terminated \<noteq> Exit 1"
  using main_unparseable_k_terminates by simp

subsection \<open>Further properties of the driver and the parser\<close>

text \<open>
  The driver returns on every well-formed graph: no index leaves its vector, and the
  Phase 2 loop ends for every \<open>k\<close>, every \<open>mc_rounds\<close> and all generator states.
\<close>

theorem celf_returns:
  assumes "wf_graph g"
  shows "\<exists>st. celf_weighted_influence g k mc_rounds rng1 rng2 = Some st"
  using celf_total[OF assms] .

theorem celf_returns_witness:
  "wf_graph ex_parsed
   \<and> (\<exists>st. celf_weighted_influence ex_parsed 3 1 ex_rng ex_rng = Some st)"
proof -
  have wf: "wf_graph ex_parsed" using parse_wf[OF ex_parse] .
  from celf_returns[OF wf, of 3 1 ex_rng ex_rng] wf show ?thesis by blast
qed

text \<open>
  The driver returns at most \<open>k\<close> seeds, all distinct; it returns exactly \<open>k\<close> of them and
  writes no warning, or it has written the warning about the exhausted queue.
\<close>

theorem celf_cardinality_and_uniqueness:
  assumes "celf_weighted_influence g k mc_rounds rng1 rng2 = Some st"
  shows "length (seeds st) \<le> nat k \<and> distinct (seeds st)
         \<and> (length (seeds st) = nat k \<and> cerr st = []
            \<or> cerr st = [WarnQueueExhausted k (length (seeds st))])"
  using celf_result[OF assms] celf_seeds_logged[OF assms]
  by (auto simp: seeds_logged_def)

theorem celf_cardinality_and_uniqueness_witness:
  "celf_weighted_influence ex_parsed 2 1 ex_rng ex_rng = Some ex_final2
   \<and> length (seeds ex_final2) \<le> nat 2 \<and> distinct (seeds ex_final2)
   \<and> length (seeds ex_final2) = nat 2 \<and> cerr ex_final2 = []"
proof -
  have "length (seeds ex_final2) = nat 2 \<and> cerr ex_final2 = []" by (simp add: ex_final2_def)
  with celf_cardinality_and_uniqueness[OF ex_parsed_run2] ex_parsed_run2
  show ?thesis by blast
qed

text \<open>
  Every graph the parser returns is well formed, and its two id tables are inverse to each
  other.
\<close>

theorem parsed_graph_well_formed:
  assumes "parse stod fs filename target_attr_name = Inr (g, parse_err)"
  shows "wf_graph g \<and> ids_consistent g"
  using parse_constructed[OF assms] constructed_inv by (auto simp: graph_inv_def)

theorem parsed_graph_well_formed_witness:
  "parse std_stod ex_fs ''graph.gexf'' ''w'' = Inr (ex_parsed, [FoundAttributeID ''w'' ''0''])
   \<and> wf_graph ex_parsed \<and> ids_consistent ex_parsed"
  using parsed_graph_well_formed[OF ex_parse] ex_parse by blast

text \<open>With \<open>k = 0\<close> the driver returns the empty seed set, \<open>current_val = 0\<close> and no warning.\<close>

theorem celf_zero_seeds_requested:
  assumes "celf_weighted_influence g 0 mc_rounds rng1 rng2 = Some st"
  shows "seeds st = [] \<and> current_val st = 0 \<and> cerr st = []"
  using assms by (auto simp: celf_weighted_influence_def split: option.splits)

theorem celf_zero_seeds_requested_witness:
  "\<exists>st. celf_weighted_influence ex_parsed 0 1 ex_rng ex_rng = Some st
        \<and> seeds st = [] \<and> current_val st = 0 \<and> cerr st = []"
proof -
  have wf: "wf_graph ex_parsed" using parse_wf[OF ex_parse] .
  from celf_total[OF wf, of 0 1 ex_rng ex_rng] obtain st where
    st: "celf_weighted_influence ex_parsed 0 1 ex_rng ex_rng = Some st" by blast
  from celf_zero_seeds_requested[OF st] st show ?thesis by blast
qed

end
